theory Spec2Isabelle
  imports Main "HOL-Library.AList"
begin

section \<open>ducktail.js: Handlebars with a built-in file cache\<close>

text \<open>
  The library reads template files, caches the compiled templates by path and renders
  them with data, named partials and named helpers. Its collaborators (the file system,
  the Handlebars engine, memory-cache, the async library and the event loop) are made
  explicit: the engine is a parameter, everything else is a field of the world that the
  functions pass along. Asynchronous completions are pending tasks of the world, run one
  at a time by \<open>step\<close> in any order the scheduler picks; an exception thrown by a
  function is the \<open>Inl\<close> of its result.

  The functions have the names of the source; a private function, whose name starts with
  an underscore there, starts with \<open>p_\<close> here (\<open>p_get\<close> is \<open>ducktail._get\<close>).
\<close>

subsection \<open>Values\<close>

type_synonym path = string
type_synonym name = string
type_synonym ref = nat
type_synonym cbid = nat

text \<open>Template data: the keys and values of the data object.\<close>

type_synonym data = "(string \<times> string) list"

text \<open>A helper is a function from its argument to the text it renders.\<close>

type_synonym helper = "string \<Rightarrow> string"

datatype error = IOError string | EngineError string | TypeError string

text \<open>
  The arguments that \<open>render\<close> inspects at run time: a function (identified by the
  number of the callback), an object (a reference into the heap), \<open>null\<close> or
  \<open>undefined\<close>.
\<close>

datatype jsval = JUndefined | JNull | JFunction cbid | JObject ref

text \<open>
  The options object \<open>{ partials: ..., helpers: ... }\<close> of \<open>render\<close> and
  \<open>renderFile\<close>; a field that is absent is \<open>None\<close>. A JavaScript object maps each
  name once and enumerates its names in order: an association list.
\<close>

record optsobj =
  o_partials :: "(name \<times> path) list option"
  o_helpers :: "(name \<times> helper) list option"

text \<open>The options of \<open>renderTmpl\<close>: the partials are compiled templates.\<close>

record 't ropts =
  r_partials :: "(name \<times> 't) list option"
  r_helpers :: "(name \<times> helper) list option"

text \<open>The first argument of \<open>renderTmpl\<close>: a compiled template, source text, or
  \<open>undefined\<close>.\<close>

datatype 't tmplarg = TFun 't | TSrc string | TUndef

subsection \<open>The templating engine\<close>

text \<open>
  Handlebars is outside the repository. Its contract: \<open>compile\<close> turns source text into a
  compiled template or throws; a compiled template applied to data returns text or
  throws, consulting the partials and helpers registered at that moment. The contract
  admits a compiler that throws. \<open>Handlebars.compile\<close> itself returns a function for every
  string and parses the text when that function is first called, so that a syntax error
  is an exception of the invocation.
\<close>

record 't engine =
  compile :: "string \<Rightarrow> error + 't"
  invoke :: "'t \<Rightarrow> data \<Rightarrow> (name \<rightharpoonup> 't) \<Rightarrow> (name \<rightharpoonup> helper) \<Rightarrow> error + string"

subsection \<open>The world\<close>

text \<open>
  What the collaborators observe: \<open>fs.readFile\<close> is called, a read completes, the
  cache is cleared, a caller's callback is invoked with an error or with contents.
\<close>

datatype event =
    EvRead path
  | EvReadDone path "error + string"
  | EvClear
  | EvCallback cbid "error + string"

text \<open>
  The callbacks handed to \<open>_getTmpl\<close>: the one \<open>async.parallel\<close> gives to its first
  task, and the \<open>next\<close> of \<open>async.mapObj\<close> for one key. The number is the call of
  \<open>_get\<close> they belong to.
\<close>

datatype kont = KMain nat | KNext nat name

text \<open>
  The pending asynchronous operations: the function given to \<open>process.nextTick\<close> by
  \<open>_returnCached\<close>, and the read started by \<open>_returnRead\<close>.
\<close>

datatype 't task = Tick 't kont | ReadFile path kont

text \<open>The callback that \<open>renderFile\<close> passes to \<open>_get\<close>, with the variables it
  closes over: \<open>data\<close>, \<open>opts\<close> and \<open>callback\<close>.\<close>

datatype getcb = RenderFileCb data jsval jsval

text \<open>
  The variables of one call of \<open>_get\<close>, shared by the closures it creates:
  the callback, the results array and the counter of \<open>async.parallel\<close>, and the result
  object and the counter of \<open>async.mapObj\<close>. \<open>par_noop\<close> and \<open>map_noop\<close> say that
  \<open>async.each\<close> has replaced its callback by the empty function.
\<close>

record 't call =
  c_cb :: getcb
  res0 :: "'t option"
  res1 :: "(name \<times> 't) list option"
  par_completed :: nat
  par_noop :: bool
  map_result :: "(name \<times> 't) list"
  map_total :: nat
  map_completed :: nat
  map_noop :: bool

record 't world =
  files :: "path \<Rightarrow> error + string"
  cache :: "path \<rightharpoonup> 't"
  reg_partials :: "name \<rightharpoonup> 't"
  reg_helpers :: "name \<rightharpoonup> helper"
  heap :: "ref \<Rightarrow> optsobj"
  next_ref :: ref
  calls :: "nat \<Rightarrow> 't call"
  ncalls :: nat
  queue :: "'t task list"
  trace :: "event list"
  crashed :: "error option"

definition upd_call :: "nat \<Rightarrow> ('t call \<Rightarrow> 't call) \<Rightarrow> 't world \<Rightarrow> 't world" where
  "upd_call j f w = w\<lparr>calls := (calls w)(j := f (calls w j))\<rparr>"

definition log :: "event \<Rightarrow> 't world \<Rightarrow> 't world" where
  "log e w = w\<lparr>trace := e # trace w\<rparr>"

subsection \<open>Registering partials and helpers\<close>

text \<open>
  The registry of Handlebars: \<open>registerPartial\<close> and \<open>registerHelper\<close> store a value
  under a name, \<open>unregisterPartial\<close> and \<open>unregisterHelper\<close> delete the name (the
  second argument that \<open>_loop\<close> passes is ignored).
\<close>

definition registerPartial :: "name \<Rightarrow> 't \<Rightarrow> 't world \<Rightarrow> 't world" where
  "registerPartial key val w = w\<lparr>reg_partials := (reg_partials w)(key \<mapsto> val)\<rparr>"

definition unregisterPartial :: "name \<Rightarrow> 't \<Rightarrow> 't world \<Rightarrow> 't world" where
  "unregisterPartial key val w = w\<lparr>reg_partials := (reg_partials w)(key := None)\<rparr>"

definition registerHelper :: "name \<Rightarrow> helper \<Rightarrow> 't world \<Rightarrow> 't world" where
  "registerHelper key val w = w\<lparr>reg_helpers := (reg_helpers w)(key \<mapsto> val)\<rparr>"

definition unregisterHelper :: "name \<Rightarrow> helper \<Rightarrow> 't world \<Rightarrow> 't world" where
  "unregisterHelper key val w = w\<lparr>reg_helpers := (reg_helpers w)(key := None)\<rparr>"

text \<open>
  \<open>ducktail._loop\<close>: \<open>_.each(obj, function (val, key) { Handlebars[action](key, val) })\<close>.
  \<open>_.each\<close> of \<open>undefined\<close> does nothing.
\<close>

definition p_loop ::
  "(name \<times> 'v) list option \<Rightarrow> (name \<Rightarrow> 'v \<Rightarrow> 't world \<Rightarrow> 't world) \<Rightarrow> 't world \<Rightarrow> 't world" where
  "p_loop obj action w =
     (case obj of None \<Rightarrow> w
      | Some kvs \<Rightarrow> fold (\<lambda>(key, val). action key val) kvs w)"

text \<open>\<open>ducktail._register\<close> and \<open>ducktail._unregister\<close>.\<close>

definition p_register :: "'t ropts \<Rightarrow> 't world \<Rightarrow> 't world" where
  "p_register opts w =
     p_loop (r_helpers opts) registerHelper (p_loop (r_partials opts) registerPartial w)"

definition p_unregister :: "'t ropts \<Rightarrow> 't world \<Rightarrow> 't world" where
  "p_unregister opts w =
     p_loop (r_helpers opts) unregisterHelper (p_loop (r_partials opts) unregisterPartial w)"

subsection \<open>renderTmpl\<close>

text \<open>
  \<open>tmpl = _.isFunction(tmpl) ? tmpl : Handlebars.compile(tmpl)\<close>; compiling
  \<open>undefined\<close> throws.
\<close>

definition to_template :: "'t engine \<Rightarrow> 't tmplarg \<Rightarrow> error + 't" where
  "to_template E tmpl =
     (case tmpl of
        TFun t \<Rightarrow> Inr t
      | TSrc s \<Rightarrow> compile E s
      | TUndef \<Rightarrow> Inl (EngineError ''You must pass a string or Handlebars AST to Handlebars.compile''))"

definition empty_ropts :: "'t ropts" where
  "empty_ropts = \<lparr>r_partials = None, r_helpers = None\<rparr>"

text \<open>
  \<open>ducktail.renderTmpl\<close>. There is no \<open>try\<close>: when the template throws, the statement
  after it, \<open>_unregister\<close>, does not run.
\<close>

definition renderTmpl ::
  "'t engine \<Rightarrow> 't tmplarg \<Rightarrow> data \<Rightarrow> 't ropts option \<Rightarrow> 't world \<Rightarrow> (error + string) \<times> 't world" where
  "renderTmpl E tmpl data opts w =
     (case to_template E tmpl of
        Inl e \<Rightarrow> (Inl e, w)
      | Inr t \<Rightarrow>
          (let opts1 = (case opts of None \<Rightarrow> empty_ropts | Some o1 \<Rightarrow> o1);
               w1 = p_register opts1 w
           in case invoke E t data (reg_partials w1) (reg_helpers w1) of
                Inl e \<Rightarrow> (Inl e, w1)
              | Inr contents \<Rightarrow> (Inr contents, p_unregister opts1 w1)))"

subsection \<open>clearCache\<close>

text \<open>\<open>ducktail.clearCache\<close>: \<open>cache.clear()\<close> of memory-cache removes every entry.\<close>

definition clearCache :: "'t world \<Rightarrow> 't world" where
  "clearCache w = log EvClear (w\<lparr>cache := Map.empty\<rparr>)"

subsection \<open>Callbacks\<close>

text \<open>
  Calling the caller's callback. The callback is not part of the library: the call is
  recorded. Calling a value that is not a function throws.
\<close>

definition call_cb :: "jsval \<Rightarrow> error + string \<Rightarrow> 't world \<Rightarrow> (error + unit) \<times> 't world" where
  "call_cb callback outcome w =
     (case callback of
        JFunction c \<Rightarrow> (Inr (), log (EvCallback c outcome) w)
      | _ \<Rightarrow> (Inl (TypeError ''callback is not a function''), w))"

text \<open>
  Reading \<open>opts.partials\<close> and \<open>opts.helpers\<close>: a function is an object without these
  properties, \<open>null\<close> and \<open>undefined\<close> throw.
\<close>

definition get_partials :: "'t world \<Rightarrow> jsval \<Rightarrow> error + (name \<times> path) list option" where
  "get_partials w opts =
     (case opts of
        JObject r \<Rightarrow> Inr (o_partials (heap w r))
      | JFunction f \<Rightarrow> Inr None
      | _ \<Rightarrow> Inl (TypeError ''Cannot read property partials''))"

definition get_helpers :: "'t world \<Rightarrow> jsval \<Rightarrow> error + (name \<times> helper) list option" where
  "get_helpers w opts =
     (case opts of
        JObject r \<Rightarrow> Inr (o_helpers (heap w r))
      | JFunction f \<Rightarrow> Inr None
      | _ \<Rightarrow> Inl (TypeError ''Cannot read property helpers''))"

text \<open>
  The function that \<open>renderFile\<close> passes to \<open>_get\<close>:
  \<^verbatim>\<open>function (err, results) {
    if (err) { return callback(err); }
    callback(null, ducktail.renderTmpl(results[0], data,
      { partials: results[1], helpers: opts.helpers }));
  }\<close>
\<close>

definition renderFileCb ::
  "'t engine \<Rightarrow> getcb \<Rightarrow> error option \<Rightarrow> 't option \<Rightarrow> (name \<times> 't) list option \<Rightarrow> 't world
     \<Rightarrow> (error + unit) \<times> 't world" where
  "renderFileCb E cb err r0 r1 w =
     (case cb of RenderFileCb data opts callback \<Rightarrow>
        (case err of
           Some e \<Rightarrow> call_cb callback (Inl e) w
         | None \<Rightarrow>
             (case get_helpers w opts of
                Inl x \<Rightarrow> (Inl x, w)
              | Inr hs \<Rightarrow>
                  (case renderTmpl E (case r0 of Some t \<Rightarrow> TFun t | None \<Rightarrow> TUndef) data
                          (Some \<lparr>r_partials = r1, r_helpers = hs\<rparr>) w of
                     (Inl x, w') \<Rightarrow> (Inl x, w')
                   | (Inr contents, w') \<Rightarrow> call_cb callback (Inr contents) w'))))"

subsection \<open>The async library\<close>

text \<open>
  The npm package async is outside the repository, like Handlebars. Its contract: all
  lookups are issued without waiting, the join completes when all have completed or any
  has failed, and the first error is propagated. The join of \<open>async.each\<close> is
  \<^verbatim>\<open>function done(err) {
    if (err) { callback(err); callback = function () {}; }
    else { completed += 1; if (completed >= arr.length) { callback(); } }
  }\<close>
  once for the two tasks of \<open>async.parallel\<close> (which stores each task's value in
  \<open>results\<close> and ends with \<open>callback(err, results)\<close>) and once for the keys of
  \<open>async.mapObj\<close>.
\<close>

definition par_callback :: "'t engine \<Rightarrow> nat \<Rightarrow> error option \<Rightarrow> 't world \<Rightarrow> (error + unit) \<times> 't world" where
  "par_callback E j err w =
     (let c = calls w j
      in if par_noop c then (Inr (), w)
         else renderFileCb E (c_cb c) err (res0 c) (res1 c) w)"

definition par_done :: "'t engine \<Rightarrow> nat \<Rightarrow> error option \<Rightarrow> 't world \<Rightarrow> (error + unit) \<times> 't world" where
  "par_done E j err w =
     (case err of
        Some e \<Rightarrow>
          (case par_callback E j (Some e) w of
             (Inl x, w') \<Rightarrow> (Inl x, w')
           | (Inr u, w') \<Rightarrow> (Inr (), upd_call j (\<lambda>c. c\<lparr>par_noop := True\<rparr>) w'))
      | None \<Rightarrow>
          (let w1 = upd_call j (\<lambda>c. c\<lparr>par_completed := par_completed c + 1\<rparr>) w
           in if 2 \<le> par_completed (calls w1 j) then par_callback E j None w1
              else (Inr (), w1)))"

text \<open>The callbacks of the two tasks: \<open>results[x.index] = v; callback(err)\<close>.\<close>

definition par_task0 :: "'t engine \<Rightarrow> nat \<Rightarrow> error + 't \<Rightarrow> 't world \<Rightarrow> (error + unit) \<times> 't world" where
  "par_task0 E j outcome w =
     (case outcome of
        Inl e \<Rightarrow> par_done E j (Some e) w
      | Inr t \<Rightarrow> par_done E j None (upd_call j (\<lambda>c. c\<lparr>res0 := Some t\<rparr>) w))"

definition par_task1 ::
  "'t engine \<Rightarrow> nat \<Rightarrow> error option \<Rightarrow> (name \<times> 't) list \<Rightarrow> 't world \<Rightarrow> (error + unit) \<times> 't world" where
  "par_task1 E j err result w =
     par_done E j err (upd_call j (\<lambda>c. c\<lparr>res1 := Some result\<rparr>) w)"

text \<open>
  \<open>async.mapObj\<close> (part of the repository): its final function is
  \<open>function (err) { callback(err, result) }\<close>, and for each key
  \<open>function (err, val) { result[key] = val; next(err) }\<close>. On an error \<open>val\<close> is
  \<open>undefined\<close>; the result object of a failed map is dropped by \<open>renderFile\<close>, and the
  model leaves the key out.
\<close>

definition map_callback :: "'t engine \<Rightarrow> nat \<Rightarrow> error option \<Rightarrow> 't world \<Rightarrow> (error + unit) \<times> 't world" where
  "map_callback E j err w =
     (let c = calls w j
      in if map_noop c then (Inr (), w)
         else par_task1 E j err (map_result c) w)"

definition map_done :: "'t engine \<Rightarrow> nat \<Rightarrow> error option \<Rightarrow> 't world \<Rightarrow> (error + unit) \<times> 't world" where
  "map_done E j err w =
     (case err of
        Some e \<Rightarrow>
          (case map_callback E j (Some e) w of
             (Inl x, w') \<Rightarrow> (Inl x, w')
           | (Inr u, w') \<Rightarrow> (Inr (), upd_call j (\<lambda>c. c\<lparr>map_noop := True\<rparr>) w'))
      | None \<Rightarrow>
          (let w1 = upd_call j (\<lambda>c. c\<lparr>map_completed := map_completed c + 1\<rparr>) w
           in if map_total (calls w1 j) \<le> map_completed (calls w1 j) then map_callback E j None w1
              else (Inr (), w1)))"

definition map_next :: "'t engine \<Rightarrow> nat \<Rightarrow> name \<Rightarrow> error + 't \<Rightarrow> 't world \<Rightarrow> (error + unit) \<times> 't world" where
  "map_next E j key outcome w =
     (case outcome of
        Inl e \<Rightarrow> map_done E j (Some e) w
      | Inr val \<Rightarrow>
          map_done E j None (upd_call j (\<lambda>c. c\<lparr>map_result := AList.update key val (map_result c)\<rparr>) w))"

text \<open>Calling the callback that \<open>_getTmpl\<close> was given.\<close>

definition apply_kont :: "'t engine \<Rightarrow> kont \<Rightarrow> error + 't \<Rightarrow> 't world \<Rightarrow> (error + unit) \<times> 't world" where
  "apply_kont E k outcome w =
     (case k of
        KMain j \<Rightarrow> par_task0 E j outcome w
      | KNext j key \<Rightarrow> map_next E j key outcome w)"

subsection \<open>The cache-or-load path\<close>

text \<open>\<open>ducktail._returnCached\<close>: \<open>process.nextTick(function () { callback(null, tmpl) })\<close>.\<close>

definition p_returnCached :: "'t \<Rightarrow> kont \<Rightarrow> 't world \<Rightarrow> 't world" where
  "p_returnCached tmpl callback w = w\<lparr>queue := queue w @ [Tick tmpl callback]\<rparr>"

text \<open>\<open>ducktail._returnRead\<close>: the call of \<open>fs.readFile\<close>; its callback runs when the read
  completes.\<close>

definition p_returnRead :: "path \<Rightarrow> kont \<Rightarrow> 't world \<Rightarrow> 't world" where
  "p_returnRead tmplPath callback w =
     (log (EvRead tmplPath) w)\<lparr>queue := queue w @ [ReadFile tmplPath callback]\<rparr>"

text \<open>\<open>ducktail._getTmpl\<close>. A compiled template is a function, hence truthy.\<close>

definition p_getTmpl :: "path \<Rightarrow> kont \<Rightarrow> 't world \<Rightarrow> 't world" where
  "p_getTmpl tmplPath callback w =
     (case cache w tmplPath of
        Some tmpl \<Rightarrow> p_returnCached tmpl callback w
      | None \<Rightarrow> p_returnRead tmplPath callback w)"

text \<open>\<open>ducktail._cache\<close>: compile, then \<open>cache.put\<close>, then the callback.\<close>

definition p_cache :: "'t engine \<Rightarrow> path \<Rightarrow> string \<Rightarrow> kont \<Rightarrow> 't world \<Rightarrow> (error + unit) \<times> 't world" where
  "p_cache E tmplPath tmpl callback w =
     (case compile E tmpl of
        Inl x \<Rightarrow> (Inl x, w)
      | Inr compiled \<Rightarrow>
          apply_kont E callback (Inr compiled) (w\<lparr>cache := (cache w)(tmplPath \<mapsto> compiled)\<rparr>))"

text \<open>
  Running a pending task: the function given to \<open>process.nextTick\<close>, or the callback of
  \<open>fs.readFile\<close> in \<open>_returnRead\<close>:
  \<open>return err ? callback(err) : ducktail._cache(tmplPath, tmpl, callback)\<close>.
\<close>

definition run_task :: "'t engine \<Rightarrow> 't task \<Rightarrow> 't world \<Rightarrow> (error + unit) \<times> 't world" where
  "run_task E t w =
     (case t of
        Tick tmpl callback \<Rightarrow> apply_kont E callback (Inr tmpl) w
      | ReadFile tmplPath callback \<Rightarrow>
          (let w1 = log (EvReadDone tmplPath (files w tmplPath)) w
           in case files w tmplPath of
                Inl err \<Rightarrow> apply_kont E callback (Inl err) w1
              | Inr tmpl \<Rightarrow> p_cache E tmplPath tmpl callback w1))"

subsection \<open>Fetching a template and its partials\<close>

definition new_call :: "getcb \<Rightarrow> 't call" where
  "new_call cb =
     \<lparr>c_cb = cb, res0 = None, res1 = None, par_completed = 0, par_noop = False,
      map_result = [], map_total = 0, map_completed = 0, map_noop = False\<rparr>"

text \<open>
  \<open>ducktail._getPartials\<close>: \<open>async.mapObj\<close> with the iterator
  \<open>function (tmplPath, name, next) { ducktail._getTmpl(tmplPath, next) }\<close>.
  \<open>Object.keys(undefined)\<close> throws; \<open>async.each\<close> of no keys calls its callback at once.
\<close>

definition p_getPartials ::
  "'t engine \<Rightarrow> (name \<times> path) list option \<Rightarrow> nat \<Rightarrow> 't world \<Rightarrow> (error + unit) \<times> 't world" where
  "p_getPartials E partials j w =
     (case partials of
        None \<Rightarrow> (Inl (TypeError ''Object.keys called on non-object''), w)
      | Some kvs \<Rightarrow>
          (let w1 = upd_call j (\<lambda>c. c\<lparr>map_total := length kvs\<rparr>) w
           in if kvs = [] then map_callback E j None w1
              else (Inr (), fold (\<lambda>(key, tmplPath). p_getTmpl tmplPath (KNext j key)) kvs w1)))"

text \<open>
  \<open>ducktail._get\<close>: \<open>async.parallel\<close> starts \<open>_getTmpl\<close> for the template, then
  \<open>_getPartials\<close>.
\<close>

definition p_get ::
  "'t engine \<Rightarrow> path \<Rightarrow> (name \<times> path) list option \<Rightarrow> getcb \<Rightarrow> 't world \<Rightarrow> (error + unit) \<times> 't world" where
  "p_get E tmplPath partials callback w =
     (let j = ncalls w;
          w0 = w\<lparr>calls := (calls w)(j := new_call callback), ncalls := Suc j\<rparr>;
          w1 = p_getTmpl tmplPath (KMain j) w0
      in p_getPartials E partials j w1)"

subsection \<open>renderFile and render\<close>

text \<open>\<open>ducktail.renderFile\<close>.\<close>

definition renderFile ::
  "'t engine \<Rightarrow> path \<Rightarrow> data \<Rightarrow> jsval \<Rightarrow> jsval \<Rightarrow> 't world \<Rightarrow> (error + unit) \<times> 't world" where
  "renderFile E tmplPath data opts callback w =
     (case get_partials w opts of
        Inl x \<Rightarrow> (Inl x, w)
      | Inr partials \<Rightarrow> p_get E tmplPath partials (RenderFileCb data opts callback) w)"

text \<open>The object literal \<open>{}\<close>: a new object without fields.\<close>

definition new_object :: "'t world \<Rightarrow> 't world" where
  "new_object w =
     w\<lparr>heap := (heap w)(next_ref w := \<lparr>o_partials = None, o_helpers = None\<rparr>),
       next_ref := Suc (next_ref w)\<rparr>"

text \<open>\<open>opts.partials = opts.partials || {}; opts.helpers = opts.helpers || {}\<close>: the
  assignments write into the object \<open>opts\<close> refers to.\<close>

definition set_defaults :: "ref \<Rightarrow> 't world \<Rightarrow> 't world" where
  "set_defaults r w =
     (let w1 = w\<lparr>heap := (heap w)(r := (heap w r)
                  \<lparr>o_partials := Some (case o_partials (heap w r) of Some ps \<Rightarrow> ps | None \<Rightarrow> [])\<rparr>)\<rparr>
      in w1\<lparr>heap := (heap w1)(r := (heap w1 r)
                  \<lparr>o_helpers := Some (case o_helpers (heap w1 r) of Some hs \<Rightarrow> hs | None \<Rightarrow> [])\<rparr>)\<rparr>)"

text \<open>
  \<open>ducktail.render\<close>. When \<open>opts\<close> is a function it becomes the callback and \<open>opts\<close> a
  new object. Assigning a property of \<open>null\<close> or \<open>undefined\<close> throws.
\<close>

definition render ::
  "'t engine \<Rightarrow> path \<Rightarrow> data \<Rightarrow> jsval \<Rightarrow> jsval \<Rightarrow> 't world \<Rightarrow> (error + unit) \<times> 't world" where
  "render E tmplPath data opts callback w =
     (let (opts1, callback1, w1) =
            (case opts of
               JFunction f \<Rightarrow> (JObject (next_ref w), opts, new_object w)
             | _ \<Rightarrow> (opts, callback, w))
      in case opts1 of
           JObject r \<Rightarrow> renderFile E tmplPath data opts1 callback1 (set_defaults r w1)
         | _ \<Rightarrow> (Inl (TypeError ''Cannot read property partials''), w1))"

subsection \<open>The event loop\<close>

text \<open>
  One turn of the event loop runs the pending task the scheduler picks. An exception that
  leaves the task is uncaught: the process stops, with what the task did before it
  threw. A pick beyond the queue does nothing.
\<close>

definition step :: "'t engine \<Rightarrow> nat \<Rightarrow> 't world \<Rightarrow> 't world" where
  "step E i w =
     (if crashed w \<noteq> None \<or> length (queue w) \<le> i then w
      else (case run_task E (queue w ! i) (w\<lparr>queue := take i (queue w) @ drop (Suc i) (queue w)\<rparr>) of
              (Inl x, w') \<Rightarrow> w'\<lparr>crashed := Some x\<rparr>
            | (Inr u, w') \<Rightarrow> w'))"

fun run :: "'t engine \<Rightarrow> nat list \<Rightarrow> 't world \<Rightarrow> 't world" where
  "run E [] w = w"
| "run E (i # picks) w = run E picks (step E i w)"

text \<open>Nothing is left to run.\<close>

definition quiescent :: "'t world \<Rightarrow> bool" where
  "quiescent w \<longleftrightarrow> queue w = [] \<or> crashed w \<noteq> None"

text \<open>Running the pending tasks in the order they were queued.\<close>

definition drain :: "'t engine \<Rightarrow> 't world \<Rightarrow> 't world" where
  "drain E w = run E (replicate (length (queue w)) 0) w"

text \<open>What the trace says: the reads started, and the outcomes a callback was given.\<close>

definition reads :: "'t world \<Rightarrow> path list" where
  "reads w = [p. EvRead p \<leftarrow> trace w]"

definition outcomes :: "cbid \<Rightarrow> 't world \<Rightarrow> (error + string) list" where
  "outcomes c w = [r. EvCallback c' r \<leftarrow> trace w, c' = c]"

subsection \<open>The early variant of render\<close>

text \<open>
  The first version of the library, kept in the same source file: \<open>render\<close> takes no
  options, the cache holds the text of the file, and \<open>_render\<close> compiles on every call.
\<close>

datatype etask = ETick string data jsval | ERead path data jsval

record 't eworld =
  e_files :: "path \<Rightarrow> error + string"
  e_cache :: "path \<rightharpoonup> string"
  e_partials :: "name \<rightharpoonup> 't"
  e_helpers :: "name \<rightharpoonup> helper"
  e_queue :: "etask list"
  e_trace :: "event list"
  e_crashed :: "error option"

text \<open>\<open>ducktail._render\<close>: \<open>Handlebars.compile(tmpl)(data)\<close>.\<close>

definition p_render :: "'t engine \<Rightarrow> string \<Rightarrow> data \<Rightarrow> 't eworld \<Rightarrow> error + string" where
  "p_render E tmpl data w =
     (case compile E tmpl of
        Inl x \<Rightarrow> Inl x
      | Inr t \<Rightarrow> invoke E t data (e_partials w) (e_helpers w))"

definition e_call_cb :: "jsval \<Rightarrow> error + string \<Rightarrow> 't eworld \<Rightarrow> (error + unit) \<times> 't eworld" where
  "e_call_cb callback outcome w =
     (case callback of
        JFunction c \<Rightarrow> (Inr (), w\<lparr>e_trace := EvCallback c outcome # e_trace w\<rparr>)
      | _ \<Rightarrow> (Inl (TypeError ''callback is not a function''), w))"

text \<open>
  \<open>ducktail.render\<close>, early variant. \<open>if (tmpl)\<close> tests the cached text: the empty
  text is falsy, like a missing entry.
\<close>

definition render_early :: "path \<Rightarrow> data \<Rightarrow> jsval \<Rightarrow> 't eworld \<Rightarrow> 't eworld" where
  "render_early tmplPath data callback w =
     (let hit = (case e_cache w tmplPath of Some tmpl \<Rightarrow> if tmpl \<noteq> [] then Some tmpl else None
                 | None \<Rightarrow> None)
      in case hit of
           Some tmpl \<Rightarrow> w\<lparr>e_queue := e_queue w @ [ETick tmpl data callback]\<rparr>
         | None \<Rightarrow> w\<lparr>e_queue := e_queue w @ [ERead tmplPath data callback],
                     e_trace := EvRead tmplPath # e_trace w\<rparr>)"

text \<open>
  The two functions \<open>render\<close> leaves pending; the callback of the read runs
  \<open>cache.put(tmplPath, tmpl)\<close> before \<open>_render\<close>.
\<close>

definition e_run_task :: "'t engine \<Rightarrow> etask \<Rightarrow> 't eworld \<Rightarrow> (error + unit) \<times> 't eworld" where
  "e_run_task E t w =
     (case t of
        ETick tmpl data callback \<Rightarrow>
          (case p_render E tmpl data w of
             Inl x \<Rightarrow> (Inl x, w)
           | Inr contents \<Rightarrow> e_call_cb callback (Inr contents) w)
      | ERead tmplPath data callback \<Rightarrow>
          (let w1 = w\<lparr>e_trace := EvReadDone tmplPath (e_files w tmplPath) # e_trace w\<rparr>
           in case e_files w tmplPath of
                Inl err \<Rightarrow> e_call_cb callback (Inl err) w1
              | Inr tmpl \<Rightarrow>
                  (let w2 = w1\<lparr>e_cache := (e_cache w1)(tmplPath \<mapsto> tmpl)\<rparr>
                   in case p_render E tmpl data w2 of
                        Inl x \<Rightarrow> (Inl x, w2)
                      | Inr contents \<Rightarrow> e_call_cb callback (Inr contents) w2)))"

definition e_step :: "'t engine \<Rightarrow> nat \<Rightarrow> 't eworld \<Rightarrow> 't eworld" where
  "e_step E i w =
     (if e_crashed w \<noteq> None \<or> length (e_queue w) \<le> i then w
      else (case e_run_task E (e_queue w ! i)
                   (w\<lparr>e_queue := take i (e_queue w) @ drop (Suc i) (e_queue w)\<rparr>) of
              (Inl x, w') \<Rightarrow> w'\<lparr>e_crashed := Some x\<rparr>
            | (Inr u, w') \<Rightarrow> w'))"

definition clearCache_early :: "'t eworld \<Rightarrow> 't eworld" where
  "clearCache_early w = w\<lparr>e_cache := Map.empty, e_trace := EvClear # e_trace w\<rparr>"

definition e_outcomes :: "cbid \<Rightarrow> 't eworld \<Rightarrow> (error + string) list" where
  "e_outcomes c w = [r. EvCallback c' r \<leftarrow> e_trace w, c' = c]"

subsection \<open>Objects as association lists\<close>

text \<open>The names of an object, its entries, and that no name occurs twice (as in every
  JavaScript object).\<close>

definition obj_keys :: "(name \<times> 'v) list option \<Rightarrow> name set" where
  "obj_keys obj = (case obj of None \<Rightarrow> {} | Some kvs \<Rightarrow> fst ` set kvs)"

definition obj_entries :: "(name \<times> 'v) list option \<Rightarrow> (name \<times> 'v) set" where
  "obj_entries obj = (case obj of None \<Rightarrow> {} | Some kvs \<Rightarrow> set kvs)"

definition obj_ok :: "(name \<times> 'v) list option \<Rightarrow> bool" where
  "obj_ok obj = (case obj of None \<Rightarrow> True | Some kvs \<Rightarrow> distinct (map fst kvs))"

subsection \<open>A small engine and a small world, for concrete runs\<close>

text \<open>
  A stand-in for Handlebars on which the functions can be run. Like \<open>Handlebars.compile\<close>,
  \<open>compile\<close> accepts every text: a compiled template is its source. Invoking the
  template of \<open>{{\<close> throws a parse error; \<open>>name\<close> renders the partial of that name and
  \<open>#name:key\<close> the helper of that name applied to the data under \<open>key\<close>, and both throw
  when the name is not registered; any other text renders as itself.
\<close>

definition toy_compile :: "string \<Rightarrow> error + string" where
  "toy_compile s = Inr s"

definition toy_invoke ::
  "string \<Rightarrow> data \<Rightarrow> (name \<rightharpoonup> string) \<Rightarrow> (name \<rightharpoonup> helper) \<Rightarrow> error + string" where
  "toy_invoke t d ps hs =
     (case t of
        [] \<Rightarrow> Inr []
      | c # rest \<Rightarrow>
          if t = ''{{'' then Inl (EngineError ''Parse error'')
          else if c = CHR ''>'' then
            (case ps rest of
               None \<Rightarrow> Inl (EngineError ''The partial could not be found'')
             | Some pt \<Rightarrow> Inr pt)
          else if c = CHR ''#'' then
            (case hs (takeWhile (\<lambda>x. x \<noteq> CHR '':'') rest) of
               None \<Rightarrow> Inl (EngineError ''Missing helper'')
             | Some h \<Rightarrow>
                 Inr (h (case map_of d (drop 1 (dropWhile (\<lambda>x. x \<noteq> CHR '':'') rest)) of
                           None \<Rightarrow> [] | Some v \<Rightarrow> v)))
          else Inr t)"

definition toy :: "string engine" where
  "toy = \<lparr>compile = toy_compile, invoke = toy_invoke\<rparr>"

definition formatPhone :: helper where
  "formatPhone phoneNumber =
     ''('' @ take 3 phoneNumber @ '') '' @ take 3 (drop 3 phoneNumber) @ ''-'' @ take 4 (drop 6 phoneNumber)"

definition toy_files :: "path \<Rightarrow> error + string" where
  "toy_files p =
     (if p = ''tmpl.hbs'' then Inr ''<h1>Title</h1>''
      else if p = ''with-partial.hbs'' then Inr ''>partial''
      else if p = ''partial.hbs'' then Inr ''<h2>Partial</h2>''
      else if p = ''with-helper.hbs'' then Inr ''#formatPhone:phone''
      else if p = ''broken.hbs'' then Inr ''{{''
      else Inl (IOError ''ENOENT''))"

definition tmplData :: data where
  "tmplData = [(''title'', ''Title''), (''phone'', ''8025557788'')]"

text \<open>
  A world with nothing cached, registered or pending, and three objects of the caller:
  \<open>{ partials: { partial: 'partial.hbs' } }\<close>, \<open>{ helpers: { formatPhone: ... } }\<close> and
  \<open>{}\<close>.
\<close>

definition toy_heap :: "ref \<Rightarrow> optsobj" where
  "toy_heap r =
     (if r = 0 then \<lparr>o_partials = Some [(''partial'', ''partial.hbs'')], o_helpers = None\<rparr>
      else if r = 1 then \<lparr>o_partials = None, o_helpers = Some [(''formatPhone'', formatPhone)]\<rparr>
      else \<lparr>o_partials = None, o_helpers = None\<rparr>)"

definition w0 :: "string world" where
  "w0 = \<lparr>files = toy_files, cache = Map.empty, reg_partials = Map.empty,
          reg_helpers = Map.empty, heap = toy_heap, next_ref = 3,
          calls = (\<lambda>j. new_call (RenderFileCb [] JUndefined JUndefined)), ncalls = 0,
          queue = [], trace = [], crashed = None\<rparr>"

text \<open>The same world, the third object being \<open>{ partials: { footer: 'broken.hbs' } }\<close>.\<close>

definition w_footer :: "string world" where
  "w_footer =
     w0\<lparr>heap := (heap w0)(2 := \<lparr>o_partials = Some [(''footer'', ''broken.hbs'')], o_helpers = None\<rparr>)\<rparr>"

definition ew0 :: "string eworld" where
  "ew0 = \<lparr>e_files = toy_files, e_cache = Map.empty, e_partials = Map.empty,
           e_helpers = Map.empty, e_queue = [], e_trace = [], e_crashed = None\<rparr>"

subsection \<open>Auxiliary notions for the statements\<close>

text \<open>The registry after storing every entry of an object, and after deleting every
  name of an object.\<close>

definition reg_obj :: "(name \<times> 'v) list option \<Rightarrow> (name \<rightharpoonup> 'v) \<Rightarrow> (name \<rightharpoonup> 'v)" where
  "reg_obj obj m =
     (case obj of None \<Rightarrow> m | Some kvs \<Rightarrow> fold (\<lambda>(key, val) m. m(key \<mapsto> val)) kvs m)"

definition unreg_obj :: "(name \<times> 'v) list option \<Rightarrow> (name \<rightharpoonup> 'v) \<Rightarrow> (name \<rightharpoonup> 'v)" where
  "unreg_obj obj m = (\<lambda>n. if n \<in> obj_keys obj then None else m n)"

text \<open>Options for \<open>renderTmpl\<close> on the small engine.\<close>

definition partialOpts :: "string ropts" where
  "partialOpts = \<lparr>r_partials = Some [(''partial'', ''<h2>Partial</h2>'')], r_helpers = None\<rparr>"

definition helperOpts :: "string ropts" where
  "helperOpts = \<lparr>r_partials = None, r_helpers = Some [(''formatPhone'', formatPhone)]\<rparr>"

text \<open>
  What \<open>_getTmpl\<close> leaves pending for a path, given the cache, and the reads it starts
  for a list of paths (the newest first, like the trace).
\<close>

definition lookup_task :: "(path \<rightharpoonup> 't) \<Rightarrow> path \<Rightarrow> kont \<Rightarrow> 't task" where
  "lookup_task c tmplPath k =
     (case c tmplPath of Some tmpl \<Rightarrow> Tick tmpl k | None \<Rightarrow> ReadFile tmplPath k)"

definition lookup_reads :: "(path \<rightharpoonup> 't) \<Rightarrow> path list \<Rightarrow> event list" where
  "lookup_reads c paths = map EvRead (filter (\<lambda>p. c p = None) (rev paths))"

text \<open>The variables of a call of \<open>_get\<close> when \<open>_get\<close> returns.\<close>

definition launched :: "getcb \<Rightarrow> (name \<times> path) list \<Rightarrow> 't call" where
  "launched cb kvs =
     (new_call cb)\<lparr>map_total := length kvs,
                    res1 := (if kvs = [] then Some [] else None),
                    par_completed := (if kvs = [] then 1 else 0)\<rparr>"

text \<open>
  The options as the spec normalises them: \<open>partials\<close> and \<open>helpers\<close> are the empty
  mapping when absent.
\<close>

definition normalized :: "optsobj \<Rightarrow> optsobj" where
  "normalized obj =
     \<lparr>o_partials = Some (case o_partials obj of None \<Rightarrow> [] | Some ps \<Rightarrow> ps),
      o_helpers = Some (case o_helpers obj of None \<Rightarrow> [] | Some hs \<Rightarrow> hs)\<rparr>"

definition the_partials :: "optsobj \<Rightarrow> (name \<times> path) list" where
  "the_partials obj = (case o_partials obj of None \<Rightarrow> [] | Some ps \<Rightarrow> ps)"

text \<open>
  What the callbacks may change: the registry and the variables of the calls, and the
  trace, by invocations of the caller's callbacks. Everything else is as it was.
\<close>

definition cb_effect :: "'t world \<Rightarrow> 't world \<Rightarrow> bool" where
  "cb_effect w w' \<longleftrightarrow>
     files w' = files w \<and> cache w' = cache w \<and> heap w' = heap w \<and> next_ref w' = next_ref w
     \<and> ncalls w' = ncalls w \<and> queue w' = queue w \<and> crashed w' = crashed w
     \<and> (\<exists>es. trace w' = es @ trace w \<and> (\<forall>e \<in> set es. \<exists>c r. e = EvCallback c r))"

text \<open>The events since the cache was last cleared (the trace has the newest first).\<close>

definition since_clear :: "event list \<Rightarrow> event list" where
  "since_clear tr = takeWhile (\<lambda>e. e \<noteq> EvClear) tr"

text \<open>
  The invariant of the cache: an entry for a path is the compiled text of a read of that
  path that succeeded since the last clear.
\<close>

definition cache_inv :: "'t engine \<Rightarrow> 't world \<Rightarrow> bool" where
  "cache_inv E w \<longleftrightarrow>
     (\<forall>p t. cache w p = Some t \<longrightarrow>
        (\<exists>s. EvReadDone p (Inr s) \<in> set (since_clear (trace w)) \<and> compile E s = Inr t))"

text \<open>In the early variant an entry is the text of a read that succeeded since the last
  clear.\<close>

definition e_cache_inv :: "'t eworld \<Rightarrow> bool" where
  "e_cache_inv w \<longleftrightarrow>
     (\<forall>p s. e_cache w p = Some s \<longrightarrow> EvReadDone p (Inr s) \<in> set (since_clear (e_trace w)))"

text \<open>What a turn of the event loop leaves as it was, whatever the task.\<close>

definition task_effect :: "'t world \<Rightarrow> 't world \<Rightarrow> bool" where
  "task_effect w w' \<longleftrightarrow>
     files w' = files w \<and> heap w' = heap w \<and> next_ref w' = next_ref w
     \<and> ncalls w' = ncalls w \<and> queue w' = queue w \<and> crashed w' = crashed w
     \<and> reads w' = reads w"

subsection \<open>One call of \<open>_get\<close>, from its launch to its callback\<close>

text \<open>The callback a pending task will call.\<close>

fun kont_of :: "'t task \<Rightarrow> kont" where
  "kont_of (Tick t k) = k"
| "kont_of (ReadFile p k) = k"

text \<open>
  What the lookup of a path comes to, given the cache when \<open>_getTmpl\<close> was called and
  the files: a template (cached, or read and compiled), the error of the read, or the
  exception of the compiler.
\<close>

datatype 't lookup = Found 't | Failed error | Thrown error

definition lookup :: "'t engine \<Rightarrow> (path \<rightharpoonup> 't) \<Rightarrow> (path \<Rightarrow> error + string) \<Rightarrow> path \<Rightarrow> 't lookup" where
  "lookup E c F p =
     (case c p of
        Some t \<Rightarrow> Found t
      | None \<Rightarrow>
          (case F p of
             Inl e \<Rightarrow> Failed e
           | Inr s \<Rightarrow> (case compile E s of Inl x \<Rightarrow> Thrown x | Inr t \<Rightarrow> Found t)))"

text \<open>
  A call of \<open>_get\<close> by \<open>renderFile\<close>: its number, its arguments, the cache and the
  files when it was made, and what the callback had been given before.
\<close>

record 't launch =
  l_call :: nat
  l_path :: path
  l_partials :: "(name \<times> path) list"
  l_data :: data
  l_opts :: jsval
  l_cb :: cbid
  l_cache :: "path \<rightharpoonup> 't"
  l_files :: "path \<Rightarrow> error + string"
  l_base :: "(error + string) list"

text \<open>The errors of the reads that fail among the lookups of the call.\<close>

definition failures :: "'t engine \<Rightarrow> 't launch \<Rightarrow> error set" where
  "failures E L =
     {e. \<exists>p \<in> set (l_path L # map snd (l_partials L)). lookup E (l_cache L) (l_files L) p = Failed e}"

text \<open>
  The state of the two joins of a call, given whether the lookup of the template is
  pending (\<open>pm\<close>), the names of the partials whose lookups are pending (\<open>N\<close>) and
  what the callback has been given (\<open>out\<close>). After an error the callback has been
  given that error and nothing else. Before, every lookup that is done has found its
  template, the counters count the lookups done, the results hold their templates, and
  the callback has been given contents when all are done and nothing otherwise.
\<close>

definition join_inv ::
  "'t engine \<Rightarrow> 't launch \<Rightarrow> 't call \<Rightarrow> bool \<Rightarrow> name set \<Rightarrow> (error + string) list \<Rightarrow> bool" where
  "join_inv E L c pm N out \<longleftrightarrow>
     c_cb c = RenderFileCb (l_data L) (l_opts L) (JFunction (l_cb L))
     \<and> map_total c = length (l_partials L)
     \<and> finite N \<and> N \<subseteq> fst ` set (l_partials L)
     \<and> (par_noop c \<longrightarrow> (\<exists>e \<in> failures E L. out = Inl e # l_base L))
     \<and> (\<not> par_noop c \<longrightarrow>
          \<not> map_noop c
          \<and> (pm \<longrightarrow> res0 c = None)
          \<and> (\<not> pm \<longrightarrow> (\<exists>t. lookup E (l_cache L) (l_files L) (l_path L) = Found t \<and> res0 c = Some t))
          \<and> map_completed c + card N = length (l_partials L)
          \<and> (\<forall>n p. (n, p) \<in> set (l_partials L) \<longrightarrow>
                (if n \<in> N then map_of (map_result c) n = None
                 else \<exists>t. lookup E (l_cache L) (l_files L) p = Found t \<and> map_of (map_result c) n = Some t))
          \<and> fst ` set (map_result c) \<subseteq> fst ` set (l_partials L)
          \<and> res1 c = (if N = {} then Some (map_result c) else None)
          \<and> par_completed c = (if pm then 0 else 1) + (if N = {} then 1 else 0)
          \<and> (if \<not> pm \<and> N = {} then \<exists>contents. out = Inr contents # l_base L else out = l_base L))"

text \<open>What the callback has been given when an exception has stopped the process:
  nothing, or the error of a read.\<close>

definition delivered_ok :: "'t engine \<Rightarrow> 't launch \<Rightarrow> (error + string) list \<Rightarrow> bool" where
  "delivered_ok E L out \<longleftrightarrow> out = l_base L \<or> (\<exists>e \<in> failures E L. out = Inl e # l_base L)"

text \<open>The state of the joins after a callback of \<open>_getTmpl\<close> has run.\<close>

definition after_kont ::
  "'t engine \<Rightarrow> 't launch \<Rightarrow> bool \<Rightarrow> name set \<Rightarrow> (error + unit) \<times> 't world \<Rightarrow> bool" where
  "after_kont E L pm N res =
     (case res of
        (Inr u, w') \<Rightarrow> join_inv E L (calls w' (l_call L)) pm N (outcomes (l_cb L) w')
      | (Inl x, w') \<Rightarrow> delivered_ok E L (outcomes (l_cb L) w'))"

text \<open>The tasks a call leaves pending: one for the template, one for each partial.\<close>

definition tasks_of :: "'t launch \<Rightarrow> 't task list" where
  "tasks_of L =
     lookup_task (l_cache L) (l_path L) (KMain (l_call L))
       # map (\<lambda>(n, p). lookup_task (l_cache L) p (KNext (l_call L) n)) (l_partials L)"

text \<open>Whether the lookup of the template of call \<open>j\<close> is pending, and the names of
  the partials of call \<open>j\<close> whose lookups are pending.\<close>

definition pending_main :: "nat \<Rightarrow> 't task list \<Rightarrow> bool" where
  "pending_main j q \<longleftrightarrow> KMain j \<in> kont_of ` set q"

definition pending_names :: "nat \<Rightarrow> 't task list \<Rightarrow> name set" where
  "pending_names j q = {n. KNext j n \<in> kont_of ` set q}"

text \<open>
  The invariant of the event loop while only the tasks of one call are pending: the files
  and the helpers are those of the launch, the pending tasks are tasks of the call, each
  once, and the joins are in the state of \<open>join_inv\<close>; once an exception has stopped the
  process, the callback has been given nothing or the error of a read.
\<close>

definition run_inv :: "'t engine \<Rightarrow> 't launch \<Rightarrow> 't world \<Rightarrow> bool" where
  "run_inv E L w \<longleftrightarrow>
     files w = l_files L
     \<and> (\<exists>hs. get_helpers w (l_opts L) = Inr hs)
     \<and> set (queue w) \<subseteq> set (tasks_of L)
     \<and> distinct (map kont_of (queue w))
     \<and> (if crashed w = None
         then join_inv E L (calls w (l_call L)) (pending_main (l_call L) (queue w))
                (pending_names (l_call L) (queue w)) (outcomes (l_cb L) w)
         else delivered_ok E L (outcomes (l_cb L) w))"

text \<open>The launch that a call of \<open>_get\<close> in world \<open>w\<close> is.\<close>

definition launch_of ::
  "'t world \<Rightarrow> path \<Rightarrow> (name \<times> path) list \<Rightarrow> data \<Rightarrow> jsval \<Rightarrow> cbid \<Rightarrow> 't launch" where
  "launch_of w tmplPath kvs data opts cb =
     \<lparr>l_call = ncalls w, l_path = tmplPath, l_partials = kvs, l_data = data, l_opts = opts,
      l_cb = cb, l_cache = cache w, l_files = files w, l_base = outcomes cb w\<rparr>"


section \<open>Properties\<close>

lemma fold_registerPartial:
  "fold (\<lambda>(key, val). registerPartial key val) kvs w
     = w\<lparr>reg_partials := fold (\<lambda>(key, val) m. m(key \<mapsto> val)) kvs (reg_partials w)\<rparr>"
  by (induction kvs arbitrary: w) (auto simp: registerPartial_def)

lemma fold_registerHelper:
  "fold (\<lambda>(key, val). registerHelper key val) kvs w
     = w\<lparr>reg_helpers := fold (\<lambda>(key, val) m. m(key \<mapsto> val)) kvs (reg_helpers w)\<rparr>"
  by (induction kvs arbitrary: w) (auto simp: registerHelper_def)

lemma fold_unregisterPartial:
  "fold (\<lambda>(key, val). unregisterPartial key val) kvs w
     = w\<lparr>reg_partials := fold (\<lambda>(key, val) m. m(key := None)) kvs (reg_partials w)\<rparr>"
  by (induction kvs arbitrary: w) (auto simp: unregisterPartial_def)

lemma fold_unregisterHelper:
  "fold (\<lambda>(key, val). unregisterHelper key val) kvs w
     = w\<lparr>reg_helpers := fold (\<lambda>(key, val) m. m(key := None)) kvs (reg_helpers w)\<rparr>"
  by (induction kvs arbitrary: w) (auto simp: unregisterHelper_def)

lemma fold_upd_other:
  "n \<notin> fst ` set kvs \<Longrightarrow> fold (\<lambda>(key, val) m. m(key \<mapsto> val)) kvs m n = m n"
  by (induction kvs arbitrary: m) auto

lemma fold_upd_entry:
  "distinct (map fst kvs) \<Longrightarrow> (n, v) \<in> set kvs
     \<Longrightarrow> fold (\<lambda>(key, val) m. m(key \<mapsto> val)) kvs m n = Some v"
  by (induction kvs arbitrary: m) (auto simp: fold_upd_other)

lemma fold_del:
  "fold (\<lambda>(key, val) m. m(key := None)) kvs m n = (if n \<in> fst ` set kvs then None else m n)"
  by (induction kvs arbitrary: m) auto

lemma fold_del_fun:
  "fold (\<lambda>(key, val) m. m(key := None)) kvs m = (\<lambda>n. if n \<in> fst ` set kvs then None else m n)"
  by (rule ext) (simp add: fold_del)

lemma reg_obj_other: "n \<notin> obj_keys obj \<Longrightarrow> reg_obj obj m n = m n"
  by (auto simp: reg_obj_def obj_keys_def fold_upd_other split: option.splits)

lemma p_loop_registerPartial:
  "p_loop obj registerPartial w = w\<lparr>reg_partials := reg_obj obj (reg_partials w)\<rparr>"
  by (simp add: p_loop_def reg_obj_def fold_registerPartial split: option.splits)

lemma p_loop_registerHelper:
  "p_loop obj registerHelper w = w\<lparr>reg_helpers := reg_obj obj (reg_helpers w)\<rparr>"
  by (simp add: p_loop_def reg_obj_def fold_registerHelper split: option.splits)

lemma p_loop_unregisterPartial:
  "p_loop obj unregisterPartial w = w\<lparr>reg_partials := unreg_obj obj (reg_partials w)\<rparr>"
  by (simp add: p_loop_def unreg_obj_def obj_keys_def fold_unregisterPartial fold_del_fun
           split: option.splits)

lemma p_loop_unregisterHelper:
  "p_loop obj unregisterHelper w = w\<lparr>reg_helpers := unreg_obj obj (reg_helpers w)\<rparr>"
  by (simp add: p_loop_def unreg_obj_def obj_keys_def fold_unregisterHelper fold_del_fun
           split: option.splits)

lemma p_register_eq:
  "p_register opts w = w\<lparr>reg_partials := reg_obj (r_partials opts) (reg_partials w),
                          reg_helpers := reg_obj (r_helpers opts) (reg_helpers w)\<rparr>"
  by (simp add: p_register_def p_loop_registerPartial p_loop_registerHelper)

lemma p_unregister_eq:
  "p_unregister opts w = w\<lparr>reg_partials := unreg_obj (r_partials opts) (reg_partials w),
                          reg_helpers := unreg_obj (r_helpers opts) (reg_helpers w)\<rparr>"
  by (simp add: p_unregister_def p_loop_unregisterPartial p_loop_unregisterHelper)

lemma reg_obj_entry: "obj_ok obj \<Longrightarrow> (n, v) \<in> obj_entries obj \<Longrightarrow> reg_obj obj m n = Some v"
  by (auto simp: obj_ok_def obj_entries_def reg_obj_def fold_upd_entry split: option.splits)

lemma renderTmpl_eq:
  "renderTmpl E tmpl data opts w =
     (case to_template E tmpl of
        Inl e \<Rightarrow> (Inl e, w)
      | Inr t \<Rightarrow>
          (let o1 = (case opts of None \<Rightarrow> empty_ropts | Some o1 \<Rightarrow> o1);
               P = reg_obj (r_partials o1) (reg_partials w);
               H = reg_obj (r_helpers o1) (reg_helpers w)
           in case invoke E t data P H of
                Inl e \<Rightarrow> (Inl e, w\<lparr>reg_partials := P, reg_helpers := H\<rparr>)
              | Inr contents \<Rightarrow>
                  (Inr contents, w\<lparr>reg_partials := unreg_obj (r_partials o1) P,
                                    reg_helpers := unreg_obj (r_helpers o1) H\<rparr>)))"
  by (simp add: renderTmpl_def p_register_eq p_unregister_eq Let_def split: sum.splits)

subsection \<open>renderTmpl and the registry\<close>

text \<open>
  C1 (as amended). Every partial and every helper of the options is registered when the
  template is invoked. When the template returns, \<open>renderTmpl\<close> returns its text and no
  name of the options is registered any more. When the template throws, \<open>renderTmpl\<close>
  throws the same exception and the world is the one the template was invoked in: the
  names stay registered.
\<close>

theorem renderTmpl_register_scope:
  assumes "to_template E tmpl = Inr t"
    and "obj_ok (r_partials opts)" and "obj_ok (r_helpers opts)"
  shows "(\<forall>(n, v) \<in> obj_entries (r_partials opts). reg_partials (p_register opts w) n = Some v)
       \<and> (\<forall>(n, h) \<in> obj_entries (r_helpers opts). reg_helpers (p_register opts w) n = Some h)
       \<and> (case invoke E t data (reg_partials (p_register opts w)) (reg_helpers (p_register opts w)) of
            Inr contents \<Rightarrow>
              fst (renderTmpl E tmpl data (Some opts) w) = Inr contents
              \<and> (\<forall>n \<in> obj_keys (r_partials opts).
                    reg_partials (snd (renderTmpl E tmpl data (Some opts) w)) n = None)
              \<and> (\<forall>n \<in> obj_keys (r_helpers opts).
                    reg_helpers (snd (renderTmpl E tmpl data (Some opts) w)) n = None)
          | Inl e \<Rightarrow> renderTmpl E tmpl data (Some opts) w = (Inl e, p_register opts w))"
  using assms
  by (auto simp: renderTmpl_eq p_register_eq reg_obj_entry unreg_obj_def split: sum.splits)


lemmas toy_defs = toy_def toy_compile_def toy_invoke_def toy_files_def toy_heap_def w0_def
  tmplData_def partialOpts_def helperOpts_def formatPhone_def

text \<open>The small engine renders a template that includes the partial it was given.\<close>

theorem renderTmpl_register_scope_witness:
  "to_template toy (TSrc ''>partial'') = Inr ''>partial''
   \<and> obj_ok (r_partials partialOpts) \<and> obj_ok (r_helpers partialOpts)
   \<and> reg_partials (p_register partialOpts w0) ''partial'' = Some ''<h2>Partial</h2>''
   \<and> fst (renderTmpl toy (TSrc ''>partial'') tmplData (Some partialOpts) w0) = Inr ''<h2>Partial</h2>''
   \<and> reg_partials (snd (renderTmpl toy (TSrc ''>partial'') tmplData (Some partialOpts) w0)) ''partial'' = None"
  using renderTmpl_register_scope [where E = toy and tmpl = "TSrc ''>partial''" and t = "''>partial''"
      and opts = partialOpts and w = w0 and data = tmplData]
  by (simp add: toy_defs to_template_def obj_ok_def obj_entries_def obj_keys_def p_register_eq reg_obj_def)

text \<open>
  C1 as stated fails: a template that includes a partial nobody registered throws, and
  the helper \<open>formatPhone\<close> of the options is still registered afterwards.
\<close>

theorem renderTmpl_throw_leaves_registered:
  "fst (renderTmpl toy (TSrc ''>missing'') tmplData (Some helperOpts) w0)
     = Inl (EngineError ''The partial could not be found'')
   \<and> reg_helpers (snd (renderTmpl toy (TSrc ''>missing'') tmplData (Some helperOpts) w0)) ''formatPhone''
     = Some formatPhone"
  by (simp add: renderTmpl_eq to_template_def toy_def toy_compile_def toy_invoke_def w0_def
        helperOpts_def reg_obj_def Let_def)

text \<open>
  C9. \<open>_unregister\<close> deletes every name of the options, whatever the registry held
  under it before \<open>renderTmpl\<close> was called: after \<open>renderTmpl\<close> has returned, no name
  of the options is registered, and every other name is as it was.
\<close>

theorem unregister_unconditional:
  "(\<forall>n \<in> obj_keys (r_partials opts). reg_partials (p_unregister opts w) n = None)
   \<and> (\<forall>n \<in> obj_keys (r_helpers opts). reg_helpers (p_unregister opts w) n = None)
   \<and> (fst (renderTmpl E tmpl data (Some opts) w) = Inr contents \<longrightarrow>
        (\<forall>n \<in> obj_keys (r_partials opts).
            reg_partials (snd (renderTmpl E tmpl data (Some opts) w)) n = None)
        \<and> (\<forall>n \<in> obj_keys (r_helpers opts).
            reg_helpers (snd (renderTmpl E tmpl data (Some opts) w)) n = None)
        \<and> (\<forall>n. n \<notin> obj_keys (r_partials opts) \<longrightarrow>
              reg_partials (snd (renderTmpl E tmpl data (Some opts) w)) n = reg_partials w n)
        \<and> (\<forall>n. n \<notin> obj_keys (r_helpers opts) \<longrightarrow>
              reg_helpers (snd (renderTmpl E tmpl data (Some opts) w)) n = reg_helpers w n))"
proof -
  show ?thesis
    by (auto simp: renderTmpl_eq p_unregister_eq Let_def reg_obj_other unreg_obj_def split: sum.splits)
qed

text \<open>A partial that somebody else had registered under the same name is gone.\<close>

theorem unregister_unconditional_witness:
  "reg_partials (w0\<lparr>reg_partials := [''partial'' \<mapsto> ''<p>registered by someone else</p>'']\<rparr>) ''partial''
      = Some ''<p>registered by someone else</p>''
   \<and> fst (renderTmpl toy (TSrc ''>partial'') tmplData (Some partialOpts)
         (w0\<lparr>reg_partials := [''partial'' \<mapsto> ''<p>registered by someone else</p>'']\<rparr>))
      = Inr ''<h2>Partial</h2>''
   \<and> reg_partials (snd (renderTmpl toy (TSrc ''>partial'') tmplData (Some partialOpts)
         (w0\<lparr>reg_partials := [''partial'' \<mapsto> ''<p>registered by someone else</p>'']\<rparr>))) ''partial''
      = None"
  using unregister_unconditional [where E = toy and tmpl = "TSrc ''>partial''" and opts = partialOpts
      and data = tmplData and contents = "''<h2>Partial</h2>''"
      and w = "w0\<lparr>reg_partials := [''partial'' \<mapsto> ''<p>registered by someone else</p>'']\<rparr>"]
  by (simp add: toy_defs to_template_def obj_keys_def renderTmpl_eq reg_obj_def Let_def)

subsection \<open>What a call leaves pending\<close>

lemma p_getTmpl_eq:
  "p_getTmpl tmplPath k w =
     w\<lparr>queue := queue w @ [lookup_task (cache w) tmplPath k],
       trace := lookup_reads (cache w) [tmplPath] @ trace w\<rparr>"
  by (simp add: p_getTmpl_def p_returnCached_def p_returnRead_def lookup_task_def lookup_reads_def
        log_def split: option.splits)

lemma fold_p_getTmpl:
  "fold (\<lambda>(key, tmplPath). p_getTmpl tmplPath (KNext j key)) kvs w =
     w\<lparr>queue := queue w @ map (\<lambda>(key, tmplPath). lookup_task (cache w) tmplPath (KNext j key)) kvs,
       trace := lookup_reads (cache w) (map snd kvs) @ trace w\<rparr>"
proof (induction kvs arbitrary: w)
  case Nil
  show ?case by (simp add: lookup_reads_def)
next
  case (Cons kv kvs)
  show ?case
    apply (cases kv)
    apply (simp add: Cons.IH)
    apply (simp add: p_getTmpl_eq lookup_reads_def)
    done
qed

lemma p_get_eq:
  "p_get E tmplPath (Some kvs) cb w =
     (Inr (),
      w\<lparr>calls := (calls w)(ncalls w := launched cb kvs),
        ncalls := Suc (ncalls w),
        queue := queue w @ lookup_task (cache w) tmplPath (KMain (ncalls w))
                   # map (\<lambda>(key, p). lookup_task (cache w) p (KNext (ncalls w) key)) kvs,
        trace := lookup_reads (cache w) (tmplPath # map snd kvs) @ trace w\<rparr>)"
  by (simp add: p_get_def p_getPartials_def p_getTmpl_eq fold_p_getTmpl Let_def upd_call_def
        map_callback_def par_task1_def par_done_def launched_def new_call_def lookup_reads_def)


subsection \<open>render, renderFile and clearCache\<close>

lemma optsobj_updates:
  "(obj :: optsobj)\<lparr>o_partials := a, o_helpers := b\<rparr> = \<lparr>o_partials = a, o_helpers = b\<rparr>"
  by (cases obj) simp

lemma set_defaults_eq: "set_defaults r w = w\<lparr>heap := (heap w)(r := normalized (heap w r))\<rparr>"
  by (simp add: set_defaults_def normalized_def Let_def optsobj_updates)

lemma render_function:
  "render E tmplPath data (JFunction c) callback w =
     renderFile E tmplPath data (JObject (next_ref w)) (JFunction c)
       (w\<lparr>next_ref := Suc (next_ref w),
          heap := (heap w)(next_ref w := \<lparr>o_partials = Some [], o_helpers = Some []\<rparr>)\<rparr>)"
  by (simp add: render_def new_object_def set_defaults_eq normalized_def)

lemma render_object:
  "render E tmplPath data (JObject r) callback w =
     renderFile E tmplPath data (JObject r) callback (w\<lparr>heap := (heap w)(r := normalized (heap w r))\<rparr>)"
  by (simp add: render_def set_defaults_eq)

lemma renderFile_object:
  "o_partials (heap w r) = Some kvs \<Longrightarrow>
   renderFile E tmplPath data (JObject r) callback w =
     p_get E tmplPath (Some kvs) (RenderFileCb data (JObject r) callback) w"
  by (simp add: renderFile_def get_partials_def)

lemma reads_app: "[p. EvRead p \<leftarrow> map EvRead xs @ tr] = xs @ [p. EvRead p \<leftarrow> tr]"
  by (induction xs) auto

lemma reads_lookup:
  "[p. EvRead p \<leftarrow> lookup_reads c ps @ tr] = filter (\<lambda>p. c p = None) (rev ps) @ [p. EvRead p \<leftarrow> tr]"
  unfolding lookup_reads_def by (rule reads_app)

text \<open>
  C8. When the third argument of \<open>render\<close> is a function, \<open>render\<close> is \<open>renderFile\<close>
  with that function as the callback and a new object as the options, whose partials and
  helpers are empty. When it is an object, \<open>render\<close> is \<open>renderFile\<close> with the same
  object, normalised: an absent field has become the empty mapping, a present field is
  as it was.
\<close>

theorem render_delegates:
  "render E tmplPath data (JFunction c) callback w =
     renderFile E tmplPath data (JObject (next_ref w)) (JFunction c)
       (w\<lparr>next_ref := Suc (next_ref w),
          heap := (heap w)(next_ref w := \<lparr>o_partials = Some [], o_helpers = Some []\<rparr>)\<rparr>)
   \<and> render E tmplPath data (JObject r) callback w =
     renderFile E tmplPath data (JObject r) callback (w\<lparr>heap := (heap w)(r := normalized (heap w r))\<rparr>)
   \<and> normalized \<lparr>o_partials = None, o_helpers = None\<rparr> = \<lparr>o_partials = Some [], o_helpers = Some []\<rparr>
   \<and> normalized \<lparr>o_partials = Some ps, o_helpers = Some hs\<rparr> = \<lparr>o_partials = Some ps, o_helpers = Some hs\<rparr>"
  by (simp add: render_function render_object) (simp add: normalized_def)

text \<open>
  C10. \<open>render\<close> writes the defaults into the object of the caller: after the call its
  \<open>partials\<close> and \<open>helpers\<close> are present. With \<open>null\<close> or \<open>undefined\<close> for the
  options \<open>render\<close> throws, and has done nothing.
\<close>

theorem render_mutates_options:
  "heap (snd (render E tmplPath data (JObject r) callback w)) r = normalized (heap w r)
   \<and> o_partials (heap (snd (render E tmplPath data (JObject r) callback w)) r) \<noteq> None
   \<and> o_helpers (heap (snd (render E tmplPath data (JObject r) callback w)) r) \<noteq> None
   \<and> render E tmplPath data JNull callback w = (Inl (TypeError ''Cannot read property partials''), w)
   \<and> render E tmplPath data JUndefined callback w = (Inl (TypeError ''Cannot read property partials''), w)"
proof -
  let ?w1 = "w\<lparr>heap := (heap w)(r := normalized (heap w r))\<rparr>"
  have "o_partials (heap ?w1 r) = Some (the_partials (heap w r))"
    by (simp add: normalized_def the_partials_def)
  then have "render E tmplPath data (JObject r) callback w =
      p_get E tmplPath (Some (the_partials (heap w r))) (RenderFileCb data (JObject r) callback) ?w1"
    by (simp only: render_object renderFile_object)
  then have "heap (snd (render E tmplPath data (JObject r) callback w)) r = normalized (heap w r)"
    by (simp add: p_get_eq)
  then show ?thesis
    by (simp add: render_def normalized_def)
qed

text \<open>
  C7. After \<open>clearCache\<close> no path has an entry, \<open>_getTmpl\<close> takes the read branch for
  every path, and \<open>render\<close> of any path starts a read of it (and of every partial).
\<close>

theorem clearCache_forces_reload:
  "cache (clearCache w) tmplPath = None
   \<and> p_getTmpl tmplPath k (clearCache w) = p_returnRead tmplPath k (clearCache w)
   \<and> reads (snd (render E tmplPath data (JFunction c) callback (clearCache w))) = tmplPath # reads w
   \<and> reads (snd (render E tmplPath data (JObject r) callback (clearCache w)))
       = rev (map snd (the_partials (heap w r))) @ tmplPath # reads w"
proof -
  let ?w1 = "(clearCache w)\<lparr>heap := (heap w)(r := normalized (heap w r))\<rparr>"
  have "o_partials (heap ?w1 r) = Some (the_partials (heap w r))"
    by (simp add: normalized_def the_partials_def)
  then have "render E tmplPath data (JObject r) callback (clearCache w) =
      p_get E tmplPath (Some (the_partials (heap w r))) (RenderFileCb data (JObject r) callback) ?w1"
    by (simp add: render_object renderFile_object clearCache_def log_def)
  then have obj: "reads (snd (render E tmplPath data (JObject r) callback (clearCache w)))
       = rev (map snd (the_partials (heap w r))) @ tmplPath # reads w"
    unfolding reads_def by (simp add: p_get_eq reads_lookup clearCache_def log_def del: concat_append map_append)
  have "reads (snd (render E tmplPath data (JFunction c) callback (clearCache w))) = tmplPath # reads w"
    unfolding reads_def
    by (simp add: render_function renderFile_def get_partials_def p_get_eq reads_lookup
          clearCache_def log_def del: concat_append map_append)
  with obj show ?thesis
    by (simp add: clearCache_def log_def p_getTmpl_def)
qed

subsection \<open>What the callbacks change\<close>

lemma cb_effect_refl [simp]: "cb_effect w w"
  by (simp add: cb_effect_def)

lemma cb_effect_trans: "cb_effect w w1 \<Longrightarrow> cb_effect w1 w2 \<Longrightarrow> cb_effect w w2"
  unfolding cb_effect_def by (elim conjE exE) (simp, fastforce)

lemma cb_effect_upd_call: "cb_effect w w' \<Longrightarrow> cb_effect w (upd_call j f w')"
  by (simp add: cb_effect_def upd_call_def)

lemma cb_effect_of_upd_call: "cb_effect (upd_call j f w) w' \<Longrightarrow> cb_effect w w'"
  by (simp add: cb_effect_def upd_call_def)

lemma cb_effect_call_cb: "call_cb cb outcome w = (r, w') \<Longrightarrow> cb_effect w w'"
  by (auto simp: call_cb_def cb_effect_def log_def split: jsval.splits)

lemma cb_effect_renderTmpl: "renderTmpl E tmpl data opts w = (r, w') \<Longrightarrow> cb_effect w w'"
  by (auto simp: renderTmpl_eq cb_effect_def Let_def split: sum.splits)

lemma cb_effect_renderFileCb: "renderFileCb E cb err r0 r1 w = (r, w') \<Longrightarrow> cb_effect w w'"
  by (auto simp: renderFileCb_def split: getcb.splits option.splits sum.splits prod.splits
      dest: cb_effect_call_cb cb_effect_renderTmpl intro: cb_effect_trans)

lemma cb_effect_par_callback: "par_callback E j err w = (r, w') \<Longrightarrow> cb_effect w w'"
  by (auto simp: par_callback_def Let_def split: if_splits dest: cb_effect_renderFileCb)

lemma cb_effect_par_done: "par_done E j err w = (r, w') \<Longrightarrow> cb_effect w w'"
  by (auto simp: par_done_def Let_def split: option.splits prod.splits sum.splits if_splits
      dest!: cb_effect_par_callback intro: cb_effect_upd_call cb_effect_of_upd_call)

lemma cb_effect_par_task0: "par_task0 E j outcome w = (r, w') \<Longrightarrow> cb_effect w w'"
  by (auto simp: par_task0_def split: sum.splits
      dest!: cb_effect_par_done intro: cb_effect_of_upd_call)

lemma cb_effect_par_task1: "par_task1 E j err result w = (r, w') \<Longrightarrow> cb_effect w w'"
  by (auto simp: par_task1_def dest!: cb_effect_par_done intro: cb_effect_of_upd_call)

lemma cb_effect_map_callback: "map_callback E j err w = (r, w') \<Longrightarrow> cb_effect w w'"
  by (auto simp: map_callback_def Let_def split: if_splits dest: cb_effect_par_task1)

lemma cb_effect_map_done: "map_done E j err w = (r, w') \<Longrightarrow> cb_effect w w'"
  by (auto simp: map_done_def Let_def split: option.splits prod.splits sum.splits if_splits
      dest!: cb_effect_map_callback intro: cb_effect_upd_call cb_effect_of_upd_call)

lemma cb_effect_map_next: "map_next E j key outcome w = (r, w') \<Longrightarrow> cb_effect w w'"
  by (auto simp: map_next_def split: sum.splits
      dest!: cb_effect_map_done intro: cb_effect_of_upd_call)

lemma cb_effect_apply_kont: "apply_kont E k outcome w = (r, w') \<Longrightarrow> cb_effect w w'"
  by (auto simp: apply_kont_def split: kont.splits dest: cb_effect_par_task0 cb_effect_map_next)


subsection \<open>The invariant of the cache\<close>

lemma since_clear_app: "EvClear \<notin> set es \<Longrightarrow> since_clear (es @ tr) = es @ since_clear tr"
  unfolding since_clear_def by (induction es) auto

lemma cache_inv_extend:
  assumes "cache_inv E w" and "cache w' = cache w" and "trace w' = es @ trace w" and "EvClear \<notin> set es"
  shows "cache_inv E w'"
  using assms unfolding cache_inv_def by (simp add: since_clear_app) blast

lemma cache_inv_cb_effect: "cache_inv E w \<Longrightarrow> cb_effect w w' \<Longrightarrow> cache_inv E w'"
  unfolding cb_effect_def by (elim conjE exE) (rule cache_inv_extend, auto)

lemma cache_inv_queue: "cache_inv E (w\<lparr>queue := q\<rparr>) = cache_inv E w"
  by (simp add: cache_inv_def)

lemma cache_inv_crashed: "cache_inv E (w\<lparr>crashed := q\<rparr>) = cache_inv E w"
  by (simp add: cache_inv_def)

lemma cache_inv_heap: "cache_inv E (w\<lparr>heap := h\<rparr>) = cache_inv E w"
  by (simp add: cache_inv_def)

lemma cache_inv_put:
  assumes "cache_inv E w" and "compile E s = Inr t"
  shows "cache_inv E ((log (EvReadDone p (Inr s)) w)\<lparr>cache := (cache w)(p \<mapsto> t)\<rparr>)"
  using assms unfolding cache_inv_def log_def since_clear_def by auto

lemma p_cache_throws: "compile E s = Inl x \<Longrightarrow> p_cache E p s k w = (Inl x, w)"
  by (simp add: p_cache_def)

lemma p_cache_puts:
  "compile E s = Inr t \<Longrightarrow> cache (snd (p_cache E p s k w)) = (cache w)(p \<mapsto> t)"
  by (cases "apply_kont E k (Inr t) (w\<lparr>cache := (cache w)(p \<mapsto> t)\<rparr>)")
     (auto simp: p_cache_def cb_effect_def dest!: cb_effect_apply_kont)

lemma cache_inv_apply_kont:
  "cache_inv E w \<Longrightarrow> apply_kont E k outcome w = (r, w') \<Longrightarrow> cache_inv E w'"
  by (rule cache_inv_cb_effect [OF _ cb_effect_apply_kont])

lemma cache_inv_run_task:
  assumes "cache_inv E w" and "run_task E t w = (r, w')"
  shows "cache_inv E w'"
proof (cases t)
  case (Tick tmpl k)
  with assms(2) have "apply_kont E k (Inr tmpl) w = (r, w')"
    by (simp add: run_task_def)
  with assms(1) show ?thesis by (rule cache_inv_apply_kont)
next
  case (ReadFile p k)
  show ?thesis
  proof (cases "files w p")
    case (Inl err)
    have "cache_inv E (log (EvReadDone p (Inl err)) w)"
      by (rule cache_inv_extend [OF assms(1), where es = "[EvReadDone p (Inl err)]"]) (simp_all add: log_def)
    moreover from assms(2) ReadFile Inl
    have "apply_kont E k (Inl err) (log (EvReadDone p (Inl err)) w) = (r, w')"
      by (simp add: run_task_def Let_def)
    ultimately show ?thesis by (rule cache_inv_apply_kont)
  next
    case (Inr s)
    let ?w1 = "log (EvReadDone p (Inr s)) w"
    have w1: "cache_inv E ?w1"
      by (rule cache_inv_extend [OF assms(1), where es = "[EvReadDone p (Inr s)]"]) (simp_all add: log_def)
    show ?thesis
    proof (cases "compile E s")
      case (Inl x)
      from assms(2) ReadFile Inr Inl have "w' = ?w1"
        by (simp add: run_task_def Let_def p_cache_def)
      with w1 show ?thesis by simp
    next
      case c: (Inr t)
      have "cache_inv E (?w1\<lparr>cache := (cache ?w1)(p \<mapsto> t)\<rparr>)"
        using cache_inv_put [OF assms(1) c, of p] by (simp add: log_def)
      moreover from assms(2) ReadFile Inr c
      have "apply_kont E k (Inr t) (?w1\<lparr>cache := (cache ?w1)(p \<mapsto> t)\<rparr>) = (r, w')"
        by (simp add: run_task_def Let_def p_cache_def)
      ultimately show ?thesis by (rule cache_inv_apply_kont)
    qed
  qed
qed

lemma cache_inv_step:
  assumes "cache_inv E w"
  shows "cache_inv E (step E i w)"
proof (cases "crashed w \<noteq> None \<or> length (queue w) \<le> i")
  case True
  with assms show ?thesis by (simp add: step_def)
next
  case False
  let ?w1 = "w\<lparr>queue := take i (queue w) @ drop (Suc i) (queue w)\<rparr>"
  obtain r w' where rt: "run_task E (queue w ! i) ?w1 = (r, w')"
    by (cases "run_task E (queue w ! i) ?w1")
  have "cache_inv E ?w1"
    using assms by (simp add: cache_inv_queue)
  then have "cache_inv E w'"
    using rt by (rule cache_inv_run_task)
  with False rt show ?thesis
    by (cases r) (simp_all add: step_def cache_inv_crashed)
qed

lemma cache_inv_clearCache: "cache_inv E (clearCache w)"
  by (simp add: cache_inv_def clearCache_def log_def)

lemma cache_inv_renderTmpl: "cache_inv E w \<Longrightarrow> cache_inv E (snd (renderTmpl E tmpl data opts w))"
  by (cases "renderTmpl E tmpl data opts w") (simp, erule cache_inv_cb_effect, erule cb_effect_renderTmpl)

lemma lookup_reads_no_clear: "EvClear \<notin> set (lookup_reads c ps)"
  by (auto simp: lookup_reads_def)

lemma cache_inv_p_get:
  assumes "cache_inv E w"
  shows "cache_inv E (snd (p_get E tmplPath partials cb w))"
proof (cases partials)
  case None
  show ?thesis
    by (rule cache_inv_extend [OF assms, where es = "lookup_reads (cache w) [tmplPath]"])
       (simp_all add: None p_get_def p_getPartials_def p_getTmpl_eq Let_def lookup_reads_no_clear)
next
  case (Some kvs)
  show ?thesis
    by (rule cache_inv_extend [OF assms, where es = "lookup_reads (cache w) (tmplPath # map snd kvs)"])
       (simp_all add: Some p_get_eq lookup_reads_no_clear)
qed

lemma cache_inv_renderFile:
  "cache_inv E w \<Longrightarrow> cache_inv E (snd (renderFile E tmplPath data opts callback w))"
  by (simp add: renderFile_def cache_inv_p_get split: sum.splits)

lemma cache_inv_cong: "cache w' = cache w \<Longrightarrow> trace w' = trace w \<Longrightarrow> cache_inv E w' = cache_inv E w"
  by (simp add: cache_inv_def)

lemma cache_inv_render:
  assumes "cache_inv E w"
  shows "cache_inv E (snd (render E tmplPath data opts callback w))"
proof (cases opts)
  case (JFunction c)
  have "cache_inv E (set_defaults (next_ref w) (new_object w)) = cache_inv E w"
    by (rule cache_inv_cong) (simp_all add: set_defaults_eq new_object_def)
  with assms have "cache_inv E (set_defaults (next_ref w) (new_object w))"
    by simp
  then show ?thesis
    by (simp add: JFunction render_def cache_inv_renderFile)
next
  case (JObject r)
  have "cache_inv E (set_defaults r w) = cache_inv E w"
    by (rule cache_inv_cong) (simp_all add: set_defaults_eq)
  with assms have "cache_inv E (set_defaults r w)"
    by simp
  then show ?thesis
    by (simp add: JObject render_def cache_inv_renderFile)
qed (simp_all add: render_def assms)


lemma cache_inv_run: "cache_inv E w \<Longrightarrow> cache_inv E (run E picks w)"
  by (induction picks arbitrary: w) (simp_all add: cache_inv_step)

lemma since_clear_Cons: "e \<noteq> EvClear \<Longrightarrow> since_clear (e # tr) = e # since_clear tr"
  by (simp add: since_clear_def)

lemma e_cache_inv_call_cb:
  "e_cache_inv w \<Longrightarrow> e_call_cb cb outcome w = (r, w') \<Longrightarrow> e_cache_inv w'"
  by (auto simp: e_call_cb_def e_cache_inv_def since_clear_Cons split: jsval.splits)

lemma e_cache_inv_run_task:
  assumes "e_cache_inv w" and "e_run_task E t w = (r, w')"
  shows "e_cache_inv w'"
proof (cases t)
  case (ETick tmpl data cb)
  with assms show ?thesis
    by (auto simp: e_run_task_def split: sum.splits dest: e_cache_inv_call_cb)
next
  case (ERead p data cb)
  let ?w1 = "w\<lparr>e_trace := EvReadDone p (e_files w p) # e_trace w\<rparr>"
  have w1: "e_cache_inv ?w1"
    using assms(1) by (auto simp: e_cache_inv_def since_clear_Cons)
  show ?thesis
  proof (cases "e_files w p")
    case (Inl err)
    with assms(2) ERead have "e_call_cb cb (Inl err) ?w1 = (r, w')"
      by (simp add: e_run_task_def Let_def)
    with w1 show ?thesis by (rule e_cache_inv_call_cb)
  next
    case (Inr s)
    let ?w2 = "?w1\<lparr>e_cache := (e_cache ?w1)(p \<mapsto> s)\<rparr>"
    have w2: "e_cache_inv ?w2"
      using assms(1) Inr by (auto simp: e_cache_inv_def since_clear_Cons)
    show ?thesis
    proof (cases "p_render E s data ?w2")
      case (Inl x)
      with assms(2) ERead Inr have "w' = ?w2"
        by (simp add: e_run_task_def Let_def)
      with w2 show ?thesis by simp
    next
      case c: (Inr contents)
      with assms(2) ERead Inr have "e_call_cb cb (Inr contents) ?w2 = (r, w')"
        by (simp add: e_run_task_def Let_def)
      with w2 show ?thesis by (rule e_cache_inv_call_cb)
    qed
  qed
qed

lemma e_cache_inv_step:
  assumes "e_cache_inv w"
  shows "e_cache_inv (e_step E i w)"
proof (cases "e_crashed w \<noteq> None \<or> length (e_queue w) \<le> i")
  case True
  with assms show ?thesis by (simp add: e_step_def)
next
  case False
  let ?w1 = "w\<lparr>e_queue := take i (e_queue w) @ drop (Suc i) (e_queue w)\<rparr>"
  obtain r w' where rt: "e_run_task E (e_queue w ! i) ?w1 = (r, w')"
    by (cases "e_run_task E (e_queue w ! i) ?w1")
  have "e_cache_inv ?w1"
    using assms by (simp add: e_cache_inv_def)
  then have "e_cache_inv w'"
    using rt by (rule e_cache_inv_run_task)
  with False rt show ?thesis
    by (cases r) (simp_all add: e_step_def e_cache_inv_def)
qed

lemma e_cache_inv_render: "e_cache_inv w \<Longrightarrow> e_cache_inv (render_early tmplPath data callback w)"
  by (auto simp: render_early_def e_cache_inv_def since_clear_Cons Let_def split: option.splits)

lemma e_cache_inv_clear: "e_cache_inv (clearCache_early w)"
  by (simp add: e_cache_inv_def clearCache_early_def)

text \<open>
  C4 (as amended). In the current code the cache maps a path to one compiled template
  (\<open>cache.put\<close> overwrites), and the invariant holds after \<open>clearCache\<close> and is kept by
  \<open>render\<close>, \<open>renderFile\<close>, \<open>renderTmpl\<close> and every turn of the event loop: an entry
  for a path is what \<open>compile\<close> returned for the text of a read of that path that
  succeeded since the last clear. \<open>_cache\<close> stores what \<open>compile\<close> returns, whatever the
  text. In the early variant the entry is the text of a successful read since the last
  clear.
\<close>

theorem cache_invariant:
  "cache_inv E (clearCache w)
   \<and> (cache_inv E w \<longrightarrow>
        cache_inv E (snd (render E tmplPath data opts callback w))
        \<and> cache_inv E (snd (renderFile E tmplPath data opts callback w))
        \<and> cache_inv E (snd (renderTmpl E tmpl data ropts w))
        \<and> cache_inv E (step E i w)
        \<and> cache_inv E (run E picks w))
   \<and> (compile E s = Inr t \<longrightarrow> cache (snd (p_cache E p s k w)) = (cache w)(p \<mapsto> t))
   \<and> e_cache_inv (clearCache_early ew)
   \<and> (e_cache_inv ew \<longrightarrow>
        e_cache_inv (render_early tmplPath data callback ew) \<and> e_cache_inv (e_step E i ew))"
  by (simp add: cache_inv_clearCache cache_inv_render cache_inv_renderFile cache_inv_renderTmpl
        cache_inv_step cache_inv_run p_cache_puts e_cache_inv_clear
        e_cache_inv_render e_cache_inv_step)

text \<open>The definitions a concrete run unfolds.\<close>

lemmas run_defs = drain_def render_def renderFile_def set_defaults_def new_object_def
  get_partials_def get_helpers_def p_get_def p_getTmpl_def p_returnRead_def p_returnCached_def
  p_getPartials_def log_def upd_call_def new_call_def step_def run_task_def p_cache_def
  apply_kont_def par_task0_def par_task1_def par_done_def par_callback_def map_next_def
  map_done_def map_callback_def renderFileCb_def renderTmpl_def to_template_def p_register_def
  p_unregister_def p_loop_def call_cb_def registerPartial_def unregisterPartial_def
  registerHelper_def unregisterHelper_def outcomes_def reads_def quiescent_def clearCache_def

lemmas early_defs = render_early_def e_step_def e_run_task_def p_render_def e_call_cb_def
  clearCache_early_def e_outcomes_def ew0_def

text \<open>
  A render with an empty cache, and the turn of the loop that completes its read; and
  \<open>_cache\<close> given the text of \<open>broken.hbs\<close>, and the early \<open>render\<close> of \<open>tmpl.hbs\<close>.
\<close>

theorem cache_invariant_witness:
  "cache_inv toy (snd (render toy ''tmpl.hbs'' tmplData (JFunction 7) JUndefined w0))
   \<and> cache (snd (render toy ''tmpl.hbs'' tmplData (JFunction 7) JUndefined w0)) ''tmpl.hbs'' = None
   \<and> cache_inv toy (step toy 0 (snd (render toy ''tmpl.hbs'' tmplData (JFunction 7) JUndefined w0)))
   \<and> cache (step toy 0 (snd (render toy ''tmpl.hbs'' tmplData (JFunction 7) JUndefined w0))) ''tmpl.hbs''
        = Some ''<h1>Title</h1>''
   \<and> compile toy ''{{'' = Inr ''{{''
   \<and> cache (snd (p_cache toy ''broken.hbs'' ''{{'' (KMain 0) w0)) ''broken.hbs'' = Some ''{{''
   \<and> e_cache_inv ew0
   \<and> e_cache_inv (e_step toy 0 (render_early ''tmpl.hbs'' tmplData (JFunction 7) ew0))
   \<and> e_cache (e_step toy 0 (render_early ''tmpl.hbs'' tmplData (JFunction 7) ew0)) ''tmpl.hbs''
        = Some ''<h1>Title</h1>''"
proof -
  have h: "cache_inv toy (snd (render toy ''tmpl.hbs'' tmplData (JFunction 7) JUndefined w0))"
    by (simp add: cache_inv_def run_defs toy_defs)
  have c: "compile toy ''{{'' = Inr ''{{''"
    by (simp add: toy_defs)
  have e: "e_cache_inv ew0"
    by (simp add: e_cache_inv_def ew0_def)
  have r: "e_cache (e_step toy 0 (render_early ''tmpl.hbs'' tmplData (JFunction 7) ew0)) ''tmpl.hbs''
        = Some ''<h1>Title</h1>''"
    by (simp add: early_defs toy_defs)
  show ?thesis
    using h c e r
      cache_invariant [where E = toy and i = 0 and s = "''{{''" and t = "''{{''"
        and p = "''broken.hbs''" and k = "KMain 0"
        and w = "snd (render toy ''tmpl.hbs'' tmplData (JFunction 7) JUndefined w0)"]
      cache_invariant [where E = toy and i = 0 and s = "''{{''" and t = "''{{''"
        and p = "''broken.hbs''" and k = "KMain 0" and w = w0
        and ew = "render_early ''tmpl.hbs'' tmplData (JFunction 7) ew0"
        and tmplPath = "''tmpl.hbs''" and data = tmplData and callback = "JFunction 7"]
      cache_invariant [where E = toy and ew = ew0
        and tmplPath = "''tmpl.hbs''" and data = tmplData and callback = "JFunction 7"]
    by (simp add: run_defs toy_defs)
qed

text \<open>
  C4 as stated fails. \<open>broken.hbs\<close> has a syntax error. Rendering \<open>tmpl.hbs\<close> with
  \<open>broken.hbs\<close> as a partial it does not include: both reads succeed, \<open>_cache\<close> stores
  what \<open>compile\<close> returned for each, and the callback is given the contents. The entry
  of \<open>broken.hbs\<close> throws a parse error when invoked, and the next render of
  \<open>broken.hbs\<close> takes it from the cache, without a read, and throws. In the early variant
  \<open>render\<close> stores the text of the file before \<open>_render\<close> is called.
\<close>

theorem cache_holds_template_that_fails_to_compile:
  "files w_footer ''broken.hbs'' = Inr ''{{''
   \<and> invoke toy ''{{'' tmplData Map.empty Map.empty = Inl (EngineError ''Parse error'')
   \<and> crashed (drain toy (snd (render toy ''tmpl.hbs'' tmplData (JObject 2) (JFunction 7) w_footer))) = None
   \<and> outcomes 7 (drain toy (snd (render toy ''tmpl.hbs'' tmplData (JObject 2) (JFunction 7) w_footer)))
        = [Inr ''<h1>Title</h1>'']
   \<and> cache (drain toy (snd (render toy ''tmpl.hbs'' tmplData (JObject 2) (JFunction 7) w_footer))) ''broken.hbs''
        = Some ''{{''
   \<and> reads (drain toy (snd (render toy ''broken.hbs'' tmplData (JFunction 8) JUndefined
          (drain toy (snd (render toy ''tmpl.hbs'' tmplData (JObject 2) (JFunction 7) w_footer))))))
        = reads (drain toy (snd (render toy ''tmpl.hbs'' tmplData (JObject 2) (JFunction 7) w_footer)))
   \<and> crashed (drain toy (snd (render toy ''broken.hbs'' tmplData (JFunction 8) JUndefined
          (drain toy (snd (render toy ''tmpl.hbs'' tmplData (JObject 2) (JFunction 7) w_footer))))))
        = Some (EngineError ''Parse error'')
   \<and> e_crashed (e_step toy 0 (render_early ''broken.hbs'' tmplData (JFunction 7) ew0))
        = Some (EngineError ''Parse error'')
   \<and> e_cache (e_step toy 0 (render_early ''broken.hbs'' tmplData (JFunction 7) ew0)) ''broken.hbs''
        = Some ''{{''"
  by (simp add: run_defs early_defs toy_defs w_footer_def)

subsection \<open>Turns of the event loop\<close>

lemma reads_callbacks:
  "\<forall>e \<in> set es. \<exists>c r. e = EvCallback c r \<Longrightarrow> [p. EvRead p \<leftarrow> es @ tr] = [p. EvRead p \<leftarrow> tr]"
  by (induction es) auto

lemma cb_effect_reads: "cb_effect w w' \<Longrightarrow> reads w' = reads w"
  unfolding cb_effect_def reads_def by (elim conjE exE) (simp add: reads_callbacks del: concat_append map_append)

lemma task_effect_cb: "cb_effect w w' \<Longrightarrow> task_effect w w'"
  by (simp add: task_effect_def cb_effect_reads) (simp add: cb_effect_def)

lemma task_effect_apply_kont:
  assumes "apply_kont E k outcome w1 = (r, w')"
    and "files w1 = files w" "heap w1 = heap w" "next_ref w1 = next_ref w" "ncalls w1 = ncalls w"
      "queue w1 = queue w" "crashed w1 = crashed w" "reads w1 = reads w"
  shows "task_effect w w'"
  using task_effect_cb [OF cb_effect_apply_kont [OF assms(1)]] assms(2-)
  by (simp add: task_effect_def)

lemma task_effect_run_task:
  assumes "run_task E t w = (r, w')"
  shows "task_effect w w'"
proof (cases t)
  case (Tick tmpl k)
  with assms have "apply_kont E k (Inr tmpl) w = (r, w')"
    by (simp add: run_task_def)
  then show ?thesis by (rule task_effect_apply_kont) simp_all
next
  case (ReadFile p k)
  show ?thesis
  proof (cases "files w p")
    case (Inl err)
    with assms ReadFile
    have "apply_kont E k (Inl err) (log (EvReadDone p (Inl err)) w) = (r, w')"
      by (simp add: run_task_def Let_def)
    then show ?thesis by (rule task_effect_apply_kont) (simp_all add: log_def reads_def)
  next
    case (Inr s)
    show ?thesis
    proof (cases "compile E s")
      case (Inl x)
      with assms ReadFile Inr have "w' = log (EvReadDone p (Inr s)) w"
        by (simp add: run_task_def Let_def p_cache_def)
      then show ?thesis by (simp add: task_effect_def log_def reads_def)
    next
      case c: (Inr t)
      with assms ReadFile Inr
      have "apply_kont E k (Inr t)
              ((log (EvReadDone p (Inr s)) w)\<lparr>cache := (cache (log (EvReadDone p (Inr s)) w))(p \<mapsto> t)\<rparr>)
            = (r, w')"
        by (simp add: run_task_def Let_def p_cache_def)
      then show ?thesis by (rule task_effect_apply_kont) (simp_all add: log_def reads_def)
    qed
  qed
qed

lemma step_cases:
  obtains (idle) "crashed w \<noteq> None \<or> length (queue w) \<le> i" "step E i w = w"
  | (ran) r w' where "crashed w = None" "i < length (queue w)"
      "run_task E (queue w ! i) (w\<lparr>queue := take i (queue w) @ drop (Suc i) (queue w)\<rparr>) = (r, w')"
      "step E i w = (case r of Inl x \<Rightarrow> w'\<lparr>crashed := Some x\<rparr> | Inr u \<Rightarrow> w')"
proof (cases "crashed w \<noteq> None \<or> length (queue w) \<le> i")
  case True
  then show ?thesis by (intro idle) (simp_all add: step_def)
next
  case False
  obtain r w' where
    rt: "run_task E (queue w ! i) (w\<lparr>queue := take i (queue w) @ drop (Suc i) (queue w)\<rparr>) = (r, w')"
    by (cases "run_task E (queue w ! i) (w\<lparr>queue := take i (queue w) @ drop (Suc i) (queue w)\<rparr>)")
  show ?thesis
    using False rt by (intro ran [of r w']) (auto simp: step_def split: sum.splits)
qed

lemma step_frame:
  "files (step E i w) = files w \<and> heap (step E i w) = heap w \<and> next_ref (step E i w) = next_ref w
   \<and> ncalls (step E i w) = ncalls w \<and> reads (step E i w) = reads w"
proof (cases rule: step_cases [of w i E])
  case idle
  then show ?thesis by simp
next
  case (ran r w')
  from task_effect_run_task [OF ran(3)] ran(4) show ?thesis
    by (cases r) (simp_all add: task_effect_def reads_def)
qed

lemma queue_step:
  "queue (step E i w) =
     (if crashed w \<noteq> None \<or> length (queue w) \<le> i then queue w
      else take i (queue w) @ drop (Suc i) (queue w))"
proof (cases rule: step_cases [of w i E])
  case idle
  then show ?thesis by auto
next
  case (ran r w')
  from task_effect_run_task [OF ran(3)] ran(1,2,4) show ?thesis
    by (cases r) (simp_all add: task_effect_def)
qed

lemma step_quiescent: "quiescent w \<Longrightarrow> step E i w = w"
  by (auto simp: quiescent_def step_def)

lemma run_quiescent: "quiescent w \<Longrightarrow> run E picks w = w"
  by (induction picks) (simp_all add: step_quiescent)

lemma run_frame:
  "files (run E picks w) = files w \<and> heap (run E picks w) = heap w
   \<and> next_ref (run E picks w) = next_ref w \<and> ncalls (run E picks w) = ncalls w
   \<and> reads (run E picks w) = reads w"
  by (induction picks arbitrary: w) (simp_all add: step_frame)

lemma quiescent_after_single:
  "queue w = [t] \<Longrightarrow> quiescent (step E 0 w)"
  by (simp add: quiescent_def queue_step) (auto simp: step_def)

lemma run_single:
  assumes "queue w = [t]" and "quiescent (run E picks w)"
  shows "run E picks w = step E 0 w"
  using assms(2)
proof (induction picks)
  case Nil
  then have "quiescent w" by simp
  then show ?case by (simp add: step_quiescent)
next
  case (Cons i picks)
  show ?case
  proof (cases "i = 0")
    case True
    then show ?thesis
      by (simp add: run_quiescent [OF quiescent_after_single [OF assms(1)]])
  next
    case False
    with assms(1) have "step E i w = w" by (simp add: step_def)
    with Cons show ?thesis by simp
  qed
qed




subsection \<open>A read that fails\<close>

lemma render_function_launch:
  "render E tmplPath data (JFunction c) callback w =
     (Inr (),
      w\<lparr>next_ref := Suc (next_ref w),
        heap := (heap w)(next_ref w := \<lparr>o_partials = Some [], o_helpers = Some []\<rparr>),
        calls := (calls w)(ncalls w := launched (RenderFileCb data (JObject (next_ref w)) (JFunction c)) []),
        ncalls := Suc (ncalls w),
        queue := queue w @ [lookup_task (cache w) tmplPath (KMain (ncalls w))],
        trace := lookup_reads (cache w) [tmplPath] @ trace w\<rparr>)"
  by (simp add: render_function renderFile_def get_partials_def p_get_eq)






subsection \<open>A path that is cached\<close>

lemma getTmpl_cached:
  assumes "cache w p = Some t"
  shows "p_getTmpl p k w = w\<lparr>queue := queue w @ [Tick t k]\<rparr>"
  using assms by (simp add: p_getTmpl_def p_returnCached_def)

lemma cache_step_read:
  assumes "queue w = [ReadFile p k]" and "crashed w = None"
    and "files w p = Inr s" and "compile E s = Inr t"
  shows "cache (step E 0 w) = (cache w)(p \<mapsto> t)"
proof -
  let ?w0 = "w\<lparr>queue := []\<rparr>"
  let ?w1 = "log (EvReadDone p (Inr s)) ?w0"
  have rt: "run_task E (ReadFile p k) ?w0 = p_cache E p s k ?w1"
    using assms(3) by (simp add: run_task_def Let_def)
  have c: "cache (snd (p_cache E p s k ?w1)) = (cache w)(p \<mapsto> t)"
    using p_cache_puts [OF assms(4), of p k ?w1] by (simp add: log_def)
  show ?thesis
    using assms(1,2) c
    by (cases "p_cache E p s k ?w1") (auto simp: step_def rt split: sum.splits)
qed

lemma render_twice_reads_once:
  assumes "cache w p = None" and "files w p = Inr s" and "compile E s = Inr t"
    and "queue w = []" and "crashed w = None"
    and "quiescent (run E picks (snd (render E p data (JFunction c) callback w)))"
  shows "reads (run E picks' (snd (render E p data' (JFunction c') callback'
            (run E picks (snd (render E p data (JFunction c) callback w))))))
         = p # reads w"
proof -
  let ?w1 = "snd (render E p data (JFunction c) callback w)"
  let ?w2 = "run E picks ?w1"
  have q: "queue ?w1 = [ReadFile p (KMain (ncalls w))]"
    using assms(1,4) by (simp add: render_function_launch lookup_task_def)
  have w1: "crashed ?w1 = None" "files ?w1 p = Inr s" "cache ?w1 = cache w"
    "reads ?w1 = p # reads w"
    using assms(1,2,5) by (simp_all add: render_function_launch lookup_reads_def reads_def)
  have run: "?w2 = step E 0 ?w1"
    using q assms(6) by (rule run_single)
  have "cache ?w2 = (cache w)(p \<mapsto> t)"
    unfolding run using cache_step_read [OF q w1(1) w1(2) assms(3)] w1(3) by simp
  then have hit: "cache ?w2 p = Some t" by simp
  have "reads (snd (render E p data' (JFunction c') callback' ?w2)) = reads ?w2"
    using hit by (simp add: render_function_launch lookup_reads_def reads_def)
  also have "\<dots> = p # reads w"
    using run_frame [of E picks ?w1] w1(4) by simp
  finally show ?thesis
    using run_frame [of E picks' "snd (render E p data' (JFunction c') callback' ?w2)"] by simp
qed

text \<open>
  C5. For a cached path \<open>_getTmpl\<close> is \<open>_returnCached\<close>: it starts no read and calls
  nothing; it leaves one function pending, which gives the cached template to the
  callback when the event loop runs it. No turn of the event loop starts a read.
  Rendering an uncached path whose file can be read and compiled, from a world with
  nothing pending, starts one read; rendering it again once nothing is left to run starts
  none, and none is started while the second render completes.
\<close>

theorem cache_hit_avoids_read:
  "(cache w p = Some t \<longrightarrow>
      p_getTmpl p k w = p_returnCached t k w
      \<and> p_getTmpl p k w = w\<lparr>queue := queue w @ [Tick t k]\<rparr>
      \<and> reads (p_getTmpl p k w) = reads w
      \<and> run_task E (Tick t k) w = apply_kont E k (Inr t) w)
   \<and> reads (step E i w) = reads w
   \<and> (cache w p = None \<and> files w p = Inr s \<and> compile E s = Inr t \<and> queue w = [] \<and> crashed w = None
       \<and> quiescent (run E picks (snd (render E p data (JFunction c) callback w))) \<longrightarrow>
      reads (snd (render E p data (JFunction c) callback w)) = p # reads w
      \<and> reads (run E picks' (snd (render E p data' (JFunction c') callback'
            (run E picks (snd (render E p data (JFunction c) callback w))))))
         = p # reads w)"
proof -
  have "cache w p = None \<Longrightarrow> reads (snd (render E p data (JFunction c) callback w)) = p # reads w"
    by (simp add: render_function_launch lookup_reads_def reads_def)
  then show ?thesis
    using getTmpl_cached [of w p t k] render_twice_reads_once [of w p s E t picks data c callback picks' data' c' callback']
    by (simp add: step_frame p_getTmpl_def run_task_def) (simp add: reads_def)
qed

text \<open>Rendering \<open>tmpl.hbs\<close> twice.\<close>

theorem cache_hit_avoids_read_witness:
  "cache w0 ''tmpl.hbs'' = None \<and> files w0 ''tmpl.hbs'' = Inr ''<h1>Title</h1>''
   \<and> compile toy ''<h1>Title</h1>'' = Inr ''<h1>Title</h1>'' \<and> queue w0 = [] \<and> crashed w0 = None
   \<and> quiescent (run toy [0] (snd (render toy ''tmpl.hbs'' tmplData (JFunction 7) JUndefined w0)))
   \<and> cache (run toy [0] (snd (render toy ''tmpl.hbs'' tmplData (JFunction 7) JUndefined w0))) ''tmpl.hbs''
       = Some ''<h1>Title</h1>''
   \<and> reads (run toy [0] (snd (render toy ''tmpl.hbs'' tmplData (JFunction 8) JUndefined
            (run toy [0] (snd (render toy ''tmpl.hbs'' tmplData (JFunction 7) JUndefined w0))))))
       = [''tmpl.hbs'']
   \<and> outcomes 8 (run toy [0] (snd (render toy ''tmpl.hbs'' tmplData (JFunction 8) JUndefined
            (run toy [0] (snd (render toy ''tmpl.hbs'' tmplData (JFunction 7) JUndefined w0))))))
       = [Inr ''<h1>Title</h1>'']"
proof -
  have q: "quiescent (run toy [0] (snd (render toy ''tmpl.hbs'' tmplData (JFunction 7) JUndefined w0)))"
    by (simp add: run_defs toy_defs)
  have h: "cache w0 ''tmpl.hbs'' = None \<and> files w0 ''tmpl.hbs'' = Inr ''<h1>Title</h1>''
      \<and> compile toy ''<h1>Title</h1>'' = Inr ''<h1>Title</h1>'' \<and> queue w0 = [] \<and> crashed w0 = None
      \<and> reads w0 = []"
    by (simp add: toy_defs reads_def)
  have c: "cache (run toy [0] (snd (render toy ''tmpl.hbs'' tmplData (JFunction 7) JUndefined w0))) ''tmpl.hbs''
       = Some ''<h1>Title</h1>''"
    by (simp add: run_defs toy_defs)
  have o: "outcomes 8 (run toy [0] (snd (render toy ''tmpl.hbs'' tmplData (JFunction 8) JUndefined
            (run toy [0] (snd (render toy ''tmpl.hbs'' tmplData (JFunction 7) JUndefined w0))))))
       = [Inr ''<h1>Title</h1>'']"
    by (simp add: run_defs toy_defs)
  show ?thesis
    using q h c o cache_hit_avoids_read [where E = toy and w = w0 and p = "''tmpl.hbs''"
        and s = "''<h1>Title</h1>''" and t = "''<h1>Title</h1>''" and picks = "[0]" and picks' = "[0]"
        and data = tmplData and data' = tmplData and c = 7 and c' = 8
        and callback = JUndefined and callback' = JUndefined]
    by simp
qed

subsection \<open>The joins of a call\<close>

lemma join_inv_delivered:
  "join_inv E L c pm N out \<Longrightarrow> pm \<or> N \<noteq> {} \<Longrightarrow> delivered_ok E L out"
  unfolding join_inv_def delivered_ok_def
  by (cases "par_noop c") (auto split: if_splits)

lemmas kont_defs = apply_kont_def par_task0_def par_task1_def par_done_def par_callback_def
  map_next_def map_done_def map_callback_def renderFileCb_def call_cb_def upd_call_def log_def
  outcomes_def

lemma main_failed:
  assumes "join_inv E L (calls w (l_call L)) True N (outcomes (l_cb L) w)"
    and "lookup E (l_cache L) (l_files L) (l_path L) = Failed e"
  shows "after_kont E L False N (apply_kont E (KMain (l_call L)) (Inl e) w)"
proof -
  have f: "e \<in> failures E L"
    using assms(2) by (auto simp: failures_def)
  show ?thesis
    using assms(1) f
    by (cases "par_noop (calls w (l_call L))") (auto simp: after_kont_def kont_defs join_inv_def)
qed

lemma main_found:
  assumes "join_inv E L (calls w (l_call L)) True N (outcomes (l_cb L) w)"
    and "lookup E (l_cache L) (l_files L) (l_path L) = Found t"
    and "get_helpers w (l_opts L) = Inr hs"
  shows "after_kont E L False N (apply_kont E (KMain (l_call L)) (Inr t) w)"
proof (cases "par_noop (calls w (l_call L))")
  case True
  with assms(1) show ?thesis
    by (auto simp: after_kont_def kont_defs join_inv_def Let_def)
next
  case False
  show ?thesis
  proof (cases "N = {}")
    case True
    with False assms show ?thesis
      by (auto simp: after_kont_def kont_defs join_inv_def delivered_ok_def Let_def get_helpers_def
            renderTmpl_eq split: sum.splits)
  next
    case nonempty: False
    with False assms(1,2) show ?thesis
      by (auto simp: after_kont_def kont_defs join_inv_def Let_def)
  qed
qed

lemma partial_failed:
  assumes "join_inv E L (calls w (l_call L)) pm N (outcomes (l_cb L) w)"
    and "n \<in> N" and "(n, p) \<in> set (l_partials L)"
    and "lookup E (l_cache L) (l_files L) p = Failed e"
  shows "after_kont E L pm (N - {n}) (apply_kont E (KNext (l_call L) n) (Inl e) w)"
proof -
  have f: "e \<in> failures E L"
    using assms(3,4) by (force simp: failures_def)
  have N: "finite (N - {n})" "N - {n} \<subseteq> fst ` set (l_partials L)"
    using assms(1) by (auto simp: join_inv_def)
  have ne: "N \<noteq> {}"
    using assms(2) by auto
  show ?thesis
  proof (cases "par_noop (calls w (l_call L))")
    case True
    with assms(1) N show ?thesis
      by (cases "map_noop (calls w (l_call L))")
         (auto simp: after_kont_def kont_defs join_inv_def Let_def)
  next
    case False
    with assms(1) N f ne show ?thesis
      by (auto simp: after_kont_def kont_defs join_inv_def Let_def)
  qed
qed

lemma result_entries_update:
  assumes "\<forall>n' p'. (n', p') \<in> set kvs \<longrightarrow>
             (if n' \<in> N then map_of al n' = None
              else \<exists>t'. lookup E c F p' = Found t' \<and> map_of al n' = Some t')"
    and "distinct (map fst kvs)" and "(n, p) \<in> set kvs" and "lookup E c F p = Found t"
  shows "\<forall>n' p'. (n', p') \<in> set kvs \<longrightarrow>
             (if n' \<in> N - {n} then map_of (AList.update n t al) n' = None
              else \<exists>t'. lookup E c F p' = Found t' \<and> map_of (AList.update n t al) n' = Some t')"
proof (intro allI impI)
  fix n' p'
  assume m: "(n', p') \<in> set kvs"
  show "if n' \<in> N - {n} then map_of (AList.update n t al) n' = None
        else \<exists>t'. lookup E c F p' = Found t' \<and> map_of (AList.update n t al) n' = Some t'"
  proof (cases "n' = n")
    case True
    with assms(2,3) m have "p' = p"
      by (auto dest: eq_key_imp_eq_value)
    with True assms(4) show ?thesis
      by (simp add: update_conv')
  next
    case False
    with assms(1) m show ?thesis
      by (simp add: update_conv')
  qed
qed

lemma pf_noop:
  assumes "join_inv E L (calls w (l_call L)) pm N (outcomes (l_cb L) w)"
    and "par_noop (calls w (l_call L))"
  shows "after_kont E L pm (N - {n}) (apply_kont E (KNext (l_call L) n) (Inr t) w)"
proof -
  let ?c = "calls w (l_call L)"
  have N: "finite (N - {n})" "(N - {n}) \<subseteq> fst ` set (l_partials L)"
    using assms(1) by (auto simp: join_inv_def)
  from assms(1,2) obtain e where e: "e \<in> failures E L" "outcomes (l_cb L) w = Inl e # l_base L"
    by (auto simp: join_inv_def)
  have rest: "c_cb ?c = RenderFileCb (l_data L) (l_opts L) (JFunction (l_cb L))"
      "map_total ?c = length (l_partials L)"
    using assms(1) by (simp_all add: join_inv_def)
  have "(case apply_kont E (KNext (l_call L) n) (Inr t) w of
           (r, w') \<Rightarrow> r = Inr () \<and> par_noop (calls w' (l_call L))
              \<and> c_cb (calls w' (l_call L)) = c_cb ?c \<and> map_total (calls w' (l_call L)) = map_total ?c
              \<and> outcomes (l_cb L) w' = outcomes (l_cb L) w)"
    using assms(2) by (simp add: kont_defs Let_def)
  then show ?thesis
    using N e rest by (auto simp: after_kont_def join_inv_def split: prod.splits)
qed

lemma join_invI:
  assumes "c_cb c = RenderFileCb (l_data L) (l_opts L) (JFunction (l_cb L))"
    and "map_total c = length (l_partials L)"
    and "finite N" and "N \<subseteq> fst ` set (l_partials L)"
    and "\<not> par_noop c" and "\<not> map_noop c"
    and "pm \<Longrightarrow> res0 c = None"
    and "\<not> pm \<Longrightarrow> \<exists>t. lookup E (l_cache L) (l_files L) (l_path L) = Found t \<and> res0 c = Some t"
    and "map_completed c + card N = length (l_partials L)"
    and "\<forall>n p. (n, p) \<in> set (l_partials L) \<longrightarrow>
                (if n \<in> N then map_of (map_result c) n = None
                 else \<exists>t. lookup E (l_cache L) (l_files L) p = Found t \<and> map_of (map_result c) n = Some t)"
    and "fst ` set (map_result c) \<subseteq> fst ` set (l_partials L)"
    and "res1 c = (if N = {} then Some (map_result c) else None)"
    and "par_completed c = (if pm then 0 else 1) + (if N = {} then 1 else 0)"
    and "if \<not> pm \<and> N = {} then \<exists>contents. out = Inr contents # l_base L else out = l_base L"
  shows "join_inv E L c pm N out"
  unfolding join_inv_def using assms by blast

lemma pf_more:
  assumes "join_inv E L (calls w (l_call L)) pm N (outcomes (l_cb L) w)"
    and "n \<in> N" and "(n, p) \<in> set (l_partials L)" and "distinct (map fst (l_partials L))"
    and "lookup E (l_cache L) (l_files L) p = Found t"
    and "\<not> par_noop (calls w (l_call L))" and "N - {n} \<noteq> {}"
  shows "after_kont E L pm (N - {n}) (apply_kont E (KNext (l_call L) n) (Inr t) w)"
proof -
  let ?c = "calls w (l_call L)"
  let ?N' = "N - {n}"
  let ?c' = "?c\<lparr>map_result := AList.update n t (map_result ?c), map_completed := Suc (map_completed ?c)\<rparr>"
  have J: "c_cb ?c = RenderFileCb (l_data L) (l_opts L) (JFunction (l_cb L))"
      "map_total ?c = length (l_partials L)" "finite N" "N \<subseteq> fst ` set (l_partials L)"
      "\<not> map_noop ?c"
      "pm \<longrightarrow> res0 ?c = None"
      "\<not> pm \<longrightarrow> (\<exists>t. lookup E (l_cache L) (l_files L) (l_path L) = Found t \<and> res0 ?c = Some t)"
      "map_completed ?c + card N = length (l_partials L)"
      "\<forall>n p. (n, p) \<in> set (l_partials L) \<longrightarrow>
                (if n \<in> N then map_of (map_result ?c) n = None
                 else \<exists>t. lookup E (l_cache L) (l_files L) p = Found t \<and> map_of (map_result ?c) n = Some t)"
      "fst ` set (map_result ?c) \<subseteq> fst ` set (l_partials L)"
      "res1 ?c = (if N = {} then Some (map_result ?c) else None)"
      "par_completed ?c = (if pm then 0 else 1) + (if N = {} then 1 else 0)"
      "if \<not> pm \<and> N = {} then \<exists>contents. outcomes (l_cb L) w = Inr contents # l_base L
       else outcomes (l_cb L) w = l_base L"
    using assms(1,6) unfolding join_inv_def by blast+
  have ne: "N \<noteq> {}" using assms(2) by auto
  have card: "card N = Suc (card ?N')"
    using J(3) assms(2) by (rule card.remove)
  with J(8) have cnt: "Suc (map_completed ?c) + card ?N' = length (l_partials L)"
    by simp
  have "card ?N' \<noteq> 0"
    using J(3) assms(7) by simp
  with cnt have nle: "\<not> length (l_partials L) \<le> Suc (map_completed ?c)"
    by simp
  have step: "apply_kont E (KNext (l_call L) n) (Inr t) w
                = (Inr (), w\<lparr>calls := (calls w)(l_call L := ?c')\<rparr>)"
    using nle J(2) by (simp add: kont_defs Let_def)
  have inv: "join_inv E L ?c' pm ?N' (outcomes (l_cb L) w)"
  proof (rule join_invI)
    show "\<forall>n' p'. (n', p') \<in> set (l_partials L) \<longrightarrow>
             (if n' \<in> ?N' then map_of (map_result ?c') n' = None
              else \<exists>t'. lookup E (l_cache L) (l_files L) p' = Found t' \<and> map_of (map_result ?c') n' = Some t')"
      using result_entries_update [OF J(9) assms(4) assms(3) assms(5)] by simp
    show "fst ` set (map_result ?c') \<subseteq> fst ` set (l_partials L)"
    proof -
      have "n \<in> fst ` set (l_partials L)"
        using assms(3) by (rule image_eqI [where x = "(n, p)", rotated]) simp
      moreover have "map_result ?c' = AList.update n t (map_result ?c)"
        by simp
      ultimately show ?thesis
        using J(10) by (simp only: dom_update) blast
    qed
    show "map_completed ?c' + card ?N' = length (l_partials L)"
      using cnt by simp
    show "if \<not> pm \<and> ?N' = {} then \<exists>contents. outcomes (l_cb L) w = Inr contents # l_base L
          else outcomes (l_cb L) w = l_base L"
      using J(13) ne assms(7) by simp
    show "res1 ?c' = (if ?N' = {} then Some (map_result ?c') else None)"
      using J(11) ne assms(7) by simp
    show "par_completed ?c' = (if pm then 0 else 1) + (if ?N' = {} then 1 else 0)"
      using J(12) ne assms(7) by simp
  qed (use J assms(6) in auto)
  show ?thesis
    using inv by (simp add: after_kont_def step outcomes_def)
qed

lemma renderTmpl_keeps:
  "renderTmpl E tmpl data opts w = (r, w') \<Longrightarrow> calls w' = calls w \<and> trace w' = trace w"
  by (auto simp: renderTmpl_eq Let_def split: sum.splits)

lemma get_helpers_calls: "get_helpers (w\<lparr>calls := x\<rparr>) opts = get_helpers w opts"
  by (cases opts) (simp_all add: get_helpers_def)

lemma pf_last:
  assumes "join_inv E L (calls w (l_call L)) pm N (outcomes (l_cb L) w)"
    and "n \<in> N" and "(n, p) \<in> set (l_partials L)" and "distinct (map fst (l_partials L))"
    and "lookup E (l_cache L) (l_files L) p = Found t"
    and "get_helpers w (l_opts L) = Inr hs"
    and "\<not> par_noop (calls w (l_call L))" and "N - {n} = {}"
  shows "after_kont E L pm (N - {n}) (apply_kont E (KNext (l_call L) n) (Inr t) w)"
proof -
  let ?c = "calls w (l_call L)"
  let ?N' = "N - {n}"
  let ?res = "AList.update n t (map_result ?c)"
  let ?c' = "?c\<lparr>map_result := ?res, map_completed := Suc (map_completed ?c),
                 res1 := Some ?res, par_completed := Suc (par_completed ?c)\<rparr>"
  let ?w1 = "w\<lparr>calls := (calls w)(l_call L := ?c')\<rparr>"
  have J: "c_cb ?c = RenderFileCb (l_data L) (l_opts L) (JFunction (l_cb L))"
      "map_total ?c = length (l_partials L)" "finite N" "N \<subseteq> fst ` set (l_partials L)"
      "\<not> map_noop ?c"
      "pm \<longrightarrow> res0 ?c = None"
      "\<not> pm \<longrightarrow> (\<exists>t. lookup E (l_cache L) (l_files L) (l_path L) = Found t \<and> res0 ?c = Some t)"
      "map_completed ?c + card N = length (l_partials L)"
      "\<forall>n p. (n, p) \<in> set (l_partials L) \<longrightarrow>
                (if n \<in> N then map_of (map_result ?c) n = None
                 else \<exists>t. lookup E (l_cache L) (l_files L) p = Found t \<and> map_of (map_result ?c) n = Some t)"
      "fst ` set (map_result ?c) \<subseteq> fst ` set (l_partials L)"
      "res1 ?c = (if N = {} then Some (map_result ?c) else None)"
      "par_completed ?c = (if pm then 0 else 1) + (if N = {} then 1 else 0)"
      "if \<not> pm \<and> N = {} then \<exists>contents. outcomes (l_cb L) w = Inr contents # l_base L
       else outcomes (l_cb L) w = l_base L"
    using assms(1,7) unfolding join_inv_def by blast+
  have ne: "N \<noteq> {}" using assms(2) by auto
  have base: "outcomes (l_cb L) w = l_base L"
    using J(13) ne by simp
  have par: "par_completed ?c = (if pm then 0 else 1)"
    using J(12) ne by simp
  have card: "card N = Suc (card ?N')"
    using J(3) assms(2) by (rule card.remove)
  have c0: "card ?N' = 0"
    unfolding assms(8) by simp
  from card J(8) c0 have cnt: "Suc (map_completed ?c) = length (l_partials L)"
    by simp
  have entries: "\<forall>n' p'. (n', p') \<in> set (l_partials L) \<longrightarrow>
             (if n' \<in> ?N' then map_of (map_result ?c') n' = None
              else \<exists>t'. lookup E (l_cache L) (l_files L) p' = Found t' \<and> map_of (map_result ?c') n' = Some t')"
    using result_entries_update [OF J(9) assms(4) assms(3) assms(5)] by simp
  have keys: "fst ` set (map_result ?c') \<subseteq> fst ` set (l_partials L)"
  proof -
    have "n \<in> fst ` set (l_partials L)"
      using assms(3) by (rule image_eqI [where x = "(n, p)", rotated]) simp
    moreover have "map_result ?c' = AList.update n t (map_result ?c)"
      by simp
    ultimately show ?thesis
      using J(10) by (simp only: dom_update) blast
  qed
  show ?thesis
  proof (cases pm)
    case True
    have step: "apply_kont E (KNext (l_call L) n) (Inr t) w = (Inr (), ?w1)"
      using cnt J(2,5) par True by (simp add: kont_defs Let_def)
    have inv: "join_inv E L ?c' pm ?N' (outcomes (l_cb L) w)"
    proof (rule join_invI)
      show "map_completed ?c' + card ?N' = length (l_partials L)"
        using cnt c0 by simp
      show "if \<not> pm \<and> ?N' = {} then \<exists>contents. outcomes (l_cb L) w = Inr contents # l_base L
            else outcomes (l_cb L) w = l_base L"
        using base True by simp
      show "res1 ?c' = (if ?N' = {} then Some (map_result ?c') else None)"
        using assms(8) by simp
      show "par_completed ?c' = (if pm then 0 else 1) + (if ?N' = {} then 1 else 0)"
        using par assms(8) True by simp
      show "pm \<Longrightarrow> res0 ?c' = None"
        using J(6) by simp
    qed (use J assms(7,8) True entries keys in auto)
    show ?thesis
      using inv by (simp add: after_kont_def step outcomes_def)
  next
    case False
    with J(7) obtain t0 where t0: "lookup E (l_cache L) (l_files L) (l_path L) = Found t0"
      "res0 ?c = Some t0" by auto
    let ?ropts = "\<lparr>r_partials = Some ?res, r_helpers = hs\<rparr>"
    have step: "apply_kont E (KNext (l_call L) n) (Inr t) w =
        (case renderTmpl E (TFun t0) (l_data L) (Some ?ropts) ?w1 of
           (Inl x, w') \<Rightarrow> (Inl x, w')
         | (Inr contents, w') \<Rightarrow> call_cb (JFunction (l_cb L)) (Inr contents) w')"
      using cnt J(1,2,5) par False t0(2) assms(6,7)
      by (simp add: kont_defs Let_def get_helpers_calls)
    obtain r w' where rt: "renderTmpl E (TFun t0) (l_data L) (Some ?ropts) ?w1 = (r, w')"
      by (cases "renderTmpl E (TFun t0) (l_data L) (Some ?ropts) ?w1")
    from renderTmpl_keeps [OF rt] have keeps: "calls w' = calls ?w1" "trace w' = trace w"
      by simp_all
    show ?thesis
    proof (cases r)
      case (Inl x)
      have "outcomes (l_cb L) w' = l_base L"
        using base keeps(2) by (simp add: outcomes_def)
      then show ?thesis
        by (simp add: after_kont_def step rt Inl delivered_ok_def)
    next
      case (Inr contents)
      have out: "outcomes (l_cb L) (log (EvCallback (l_cb L) (Inr contents)) w') = Inr contents # l_base L"
        using base keeps(2) by (simp add: outcomes_def log_def)
      have inv: "join_inv E L ?c' pm ?N' (Inr contents # l_base L)"
      proof (rule join_invI)
        show "map_completed ?c' + card ?N' = length (l_partials L)"
          using cnt c0 by simp
        show "if \<not> pm \<and> ?N' = {} then \<exists>c. Inr contents # l_base L = Inr c # l_base L
              else Inr contents # l_base L = l_base L"
          using False assms(8) by simp
        show "res1 ?c' = (if ?N' = {} then Some (map_result ?c') else None)"
          using assms(8) by simp
        show "par_completed ?c' = (if pm then 0 else 1) + (if ?N' = {} then 1 else 0)"
          using par assms(8) False by simp
        show "\<not> pm \<Longrightarrow> \<exists>t. lookup E (l_cache L) (l_files L) (l_path L) = Found t \<and> res0 ?c' = Some t"
          using t0 by simp
      qed (use J assms(7,8) False entries keys in auto)
      show ?thesis
        using inv out by (simp add: after_kont_def step rt Inr keeps(1) log_def call_cb_def)
    qed
  qed
qed

lemma partial_found:
  assumes "join_inv E L (calls w (l_call L)) pm N (outcomes (l_cb L) w)"
    and "n \<in> N" and "(n, p) \<in> set (l_partials L)" and "distinct (map fst (l_partials L))"
    and "lookup E (l_cache L) (l_files L) p = Found t"
    and "get_helpers w (l_opts L) = Inr hs"
  shows "after_kont E L pm (N - {n}) (apply_kont E (KNext (l_call L) n) (Inr t) w)"
proof (cases "par_noop (calls w (l_call L))")
  case True
  with assms(1) show ?thesis by (rule pf_noop)
next
  case False
  show ?thesis
  proof (cases "N - {n} = {}")
    case True
    with assms False show ?thesis by (intro pf_last)
  next
    case more: False
    with assms(1-5) False show ?thesis by (intro pf_more)
  qed
qed

subsection \<open>The event loop while one call is pending\<close>

lemma main_failed_first:
  assumes "join_inv E L (calls w (l_call L)) True N (outcomes (l_cb L) w)"
    and "\<not> par_noop (calls w (l_call L))"
  shows "outcomes (l_cb L) (snd (apply_kont E (KMain (l_call L)) (Inl e) w)) = Inl e # l_base L"
  using assms by (auto simp: kont_defs join_inv_def)

lemma partial_failed_first:
  assumes "join_inv E L (calls w (l_call L)) pm N (outcomes (l_cb L) w)"
    and "n \<in> N" and "\<not> par_noop (calls w (l_call L))"
  shows "outcomes (l_cb L) (snd (apply_kont E (KNext (l_call L) n) (Inl e) w)) = Inl e # l_base L"
proof -
  have ne: "N \<noteq> {}" using assms(2) by auto
  show ?thesis
    using assms(1,3) ne by (auto simp: kont_defs join_inv_def Let_def)
qed

lemma kont_of_lookup_task [simp]: "kont_of (lookup_task c p k) = k"
  by (simp add: lookup_task_def split: option.splits)

lemma run_task_lookup:
  assumes "files w = F"
  obtains (found) t wl where "lookup E c F p = Found t"
      "run_task E (lookup_task c p k) w = apply_kont E k (Inr t) wl"
      "calls wl = calls w" "heap wl = heap w" "outcomes cb wl = outcomes cb w"
  | (failed) e wl where "lookup E c F p = Failed e"
      "run_task E (lookup_task c p k) w = apply_kont E k (Inl e) wl"
      "calls wl = calls w" "heap wl = heap w" "outcomes cb wl = outcomes cb w"
  | (thrown) x wl where "lookup E c F p = Thrown x"
      "run_task E (lookup_task c p k) w = (Inl x, wl)"
      "calls wl = calls w" "heap wl = heap w" "outcomes cb wl = outcomes cb w"
proof (cases "c p")
  case (Some t)
  show ?thesis
    by (rule found [of t w]) (simp_all add: Some lookup_def lookup_task_def run_task_def)
next
  case None
  show ?thesis
  proof (cases "F p")
    case (Inl e)
    show ?thesis
      by (rule failed [of e "log (EvReadDone p (Inl e)) w"])
         (simp_all add: None Inl assms lookup_def lookup_task_def run_task_def Let_def log_def outcomes_def)
  next
    case (Inr s)
    show ?thesis
    proof (cases "compile E s")
      case (Inl x)
      show ?thesis
        by (rule thrown [of x "log (EvReadDone p (Inr s)) w"])
           (simp_all add: None Inr Inl assms lookup_def lookup_task_def run_task_def Let_def log_def
              outcomes_def p_cache_def)
    next
      case c: (Inr t)
      show ?thesis
        by (rule found [of t "(log (EvReadDone p (Inr s)) w)\<lparr>cache := (cache w)(p \<mapsto> t)\<rparr>"])
           (simp_all add: None Inr c assms lookup_def lookup_task_def run_task_def Let_def log_def
              outcomes_def p_cache_def)
    qed
  qed
qed

lemma image_remove_distinct:
  "distinct (map f (xs @ x # ys)) \<Longrightarrow> f ` set (xs @ ys) = f ` set (xs @ x # ys) - {f x}"
  by auto (metis imageI)+

lemma konts_remove:
  assumes "distinct (map kont_of q)" and "i < length q"
  shows "kont_of ` set (take i q @ drop (Suc i) q) = kont_of ` set q - {kont_of (q ! i)}"
proof -
  have q: "q = take i q @ q ! i # drop (Suc i) q"
    using assms(2) by (rule id_take_nth_drop)
  have "distinct (map kont_of (take i q @ q ! i # drop (Suc i) q))"
    using assms(1) q by simp
  from image_remove_distinct [OF this] q show ?thesis by simp
qed

lemma distinct_take_drop: "distinct xs \<Longrightarrow> distinct (take i xs @ drop (Suc i) xs)"
proof (induction xs arbitrary: i)
  case Nil
  then show ?case by simp
next
  case (Cons x xs)
  show ?case
  proof (cases i)
    case 0
    with Cons.prems show ?thesis by simp
  next
    case (Suc k)
    with Cons show ?thesis
      by (auto dest: in_set_takeD in_set_dropD)
  qed
qed

lemma distinct_remove:
  assumes "distinct (map kont_of q)"
  shows "distinct (map kont_of (take i q @ drop (Suc i) q))"
  using distinct_take_drop [OF assms, of i] by (simp add: take_map drop_map)

lemma set_remove: "set (take i q @ drop (Suc i) q) \<subseteq> set q"
  using set_take_subset [of i q] set_drop_subset [of "Suc i" q] by auto

lemma get_helpers_heap: "heap w' = heap w \<Longrightarrow> get_helpers w' opts = get_helpers w opts"
  by (cases opts) (simp_all add: get_helpers_def)

lemma outcomes_queue [simp]: "outcomes c (w\<lparr>queue := q\<rparr>) = outcomes c w"
  by (simp add: outcomes_def)

lemma after_kont_step:
  assumes "after_kont E L pm N (r, w')"
    and "files w' = l_files L" and "get_helpers w' (l_opts L) = Inr hs"
    and "set (queue w') \<subseteq> set (tasks_of L)" and "distinct (map kont_of (queue w'))"
    and "crashed w' = None"
    and "pending_main (l_call L) (queue w') = pm" and "pending_names (l_call L) (queue w') = N"
  shows "run_inv E L (case r of Inl x \<Rightarrow> w'\<lparr>crashed := Some x\<rparr> | Inr u \<Rightarrow> w')"
proof (cases r)
  case (Inl x)
  have "get_helpers (w'\<lparr>crashed := Some x\<rparr>) (l_opts L) = get_helpers w' (l_opts L)"
    by (rule get_helpers_heap) simp
  with Inl assms show ?thesis
    by (simp add: run_inv_def after_kont_def outcomes_def)
next
  case (Inr u)
  with assms show ?thesis
    by (simp add: run_inv_def after_kont_def)
qed

lemma run_inv_step:
  assumes inv: "run_inv E L w" and d: "distinct (map fst (l_partials L))"
  shows "run_inv E L (step E i w)"
proof (cases rule: step_cases [of w i E])
  case idle
  with inv show ?thesis by simp
next
  case (ran r w')
  let ?j = "l_call L" and ?cb = "l_cb L"
  let ?q = "queue w"
  let ?q' = "take i ?q @ drop (Suc i) ?q"
  let ?w0 = "w\<lparr>queue := ?q'\<rparr>"
  let ?t = "?q ! i"
  let ?pm = "pending_main ?j ?q" and ?N = "pending_names ?j ?q"
  from inv ran(1) obtain hs where
    F: "files w = l_files L" and hs: "get_helpers w (l_opts L) = Inr hs"
    and sub: "set ?q \<subseteq> set (tasks_of L)" and dist: "distinct (map kont_of ?q)"
    and J: "join_inv E L (calls w ?j) ?pm ?N (outcomes ?cb w)"
    by (auto simp: run_inv_def)
  from task_effect_run_task [OF ran(3)]
  have te: "files w' = files w" "heap w' = heap w" "queue w' = ?q'" "crashed w' = None"
    using ran(1) by (simp_all add: task_effect_def)
  have w': "files w' = l_files L" "get_helpers w' (l_opts L) = Inr hs"
    "set (queue w') \<subseteq> set (tasks_of L)" "distinct (map kont_of (queue w'))"
    using te F hs sub dist set_remove [of i ?q] distinct_remove [of ?q i]
      get_helpers_heap [of w' w "l_opts L"]
    by auto
  have konts: "kont_of ` set ?q' = kont_of ` set ?q - {kont_of ?t}"
    using dist ran(2) by (rule konts_remove)
  have tin: "?t \<in> set ?q"
    using ran(2) by simp
  have F0: "files ?w0 = l_files L"
    using F by simp
  from tin sub have "?t \<in> set (tasks_of L)" by auto
  then consider (main) "?t = lookup_task (l_cache L) (l_path L) (KMain ?j)"
    | (partial) n p where "(n, p) \<in> set (l_partials L)"
        "?t = lookup_task (l_cache L) p (KNext ?j n)"
    by (auto simp: tasks_of_def)
  then have "after_kont E L (pending_main ?j ?q') (pending_names ?j ?q') (r, w')"
  proof cases
    case main
    then have k: "kont_of ?t = KMain ?j" by simp
    have pm: "?pm"
      using tin k by (force simp: pending_main_def)
    have pm': "\<not> pending_main ?j ?q'" and N': "pending_names ?j ?q' = ?N"
      unfolding pending_main_def pending_names_def konts k by auto
    from F0 show ?thesis
    proof (cases rule: run_task_lookup [where E = E and c = "l_cache L" and p = "l_path L"
          and k = "KMain ?j" and cb = ?cb])
      case (found t wl)
      have "after_kont E L False ?N (apply_kont E (KMain ?j) (Inr t) wl)"
        using J pm found(1,3,4,5) hs get_helpers_heap [of wl w "l_opts L"]
        by (intro main_found [where hs = hs]) simp_all
      with found(2) ran(3) main pm' N' show ?thesis by simp
    next
      case (failed e wl)
      have "after_kont E L False ?N (apply_kont E (KMain ?j) (Inl e) wl)"
        using J pm failed(1,3,5) by (intro main_failed) simp_all
      with failed(2) ran(3) main pm' N' show ?thesis by simp
    next
      case (thrown x wl)
      have "delivered_ok E L (outcomes ?cb w)"
        using J pm by (auto intro: join_inv_delivered)
      moreover from thrown(2) ran(3) main have "r = Inl x" "w' = wl"
        by simp_all
      ultimately show ?thesis
        using thrown(5) by (simp add: after_kont_def)
    qed
  next
    case (partial n p)
    then have k: "kont_of ?t = KNext ?j n" by simp
    have n: "n \<in> ?N"
      using tin k by (force simp: pending_names_def)
    have pm': "pending_main ?j ?q' = ?pm" and N': "pending_names ?j ?q' = ?N - {n}"
      unfolding pending_main_def pending_names_def konts k by auto
    from F0 show ?thesis
    proof (cases rule: run_task_lookup [where E = E and c = "l_cache L" and p = p
          and k = "KNext ?j n" and cb = ?cb])
      case (found t wl)
      have "after_kont E L ?pm (?N - {n}) (apply_kont E (KNext ?j n) (Inr t) wl)"
        using J n partial(1) d found(1,3,4,5) hs get_helpers_heap [of wl w "l_opts L"]
        by (intro partial_found [where hs = hs and p = p]) simp_all
      with found(2) ran(3) partial(2) pm' N' show ?thesis by simp
    next
      case (failed e wl)
      have "after_kont E L ?pm (?N - {n}) (apply_kont E (KNext ?j n) (Inl e) wl)"
        using J n partial(1) failed(1,3,5) by (intro partial_failed [where p = p]) simp_all
      with failed(2) ran(3) partial(2) pm' N' show ?thesis by simp
    next
      case (thrown x wl)
      have "delivered_ok E L (outcomes ?cb w)"
        using J n by (auto intro: join_inv_delivered)
      moreover from thrown(2) ran(3) partial(2) have "r = Inl x" "w' = wl"
        by simp_all
      ultimately show ?thesis
        using thrown(5) by (simp add: after_kont_def)
    qed
  qed
  then have "run_inv E L (case r of Inl x \<Rightarrow> w'\<lparr>crashed := Some x\<rparr> | Inr u \<Rightarrow> w')"
    using w' te(4) by (rule after_kont_step) (simp_all add: te(3))
  with ran(4) show ?thesis by simp
qed

lemma run_inv_run:
  "run_inv E L w \<Longrightarrow> distinct (map fst (l_partials L)) \<Longrightarrow> run_inv E L (run E picks w)"
  by (induction picks arbitrary: w) (simp_all add: run_inv_step)

lemma konts_tasks_of:
  "map kont_of (tasks_of L) = KMain (l_call L) # map (\<lambda>(n, p). KNext (l_call L) n) (l_partials L)"
  by (simp add: tasks_of_def case_prod_unfold comp_def)

lemma distinct_tasks_of:
  assumes "distinct (map fst (l_partials L))"
  shows "distinct (map kont_of (tasks_of L))"
proof -
  have "map (\<lambda>(n, p). KNext (l_call L) n) (l_partials L) = map (KNext (l_call L)) (map fst (l_partials L))"
    by (simp add: case_prod_unfold comp_def)
  moreover have "distinct (map (KNext (l_call L)) (map fst (l_partials L)))"
    using assms by (simp add: distinct_map inj_on_def)
  ultimately have "distinct (map (\<lambda>(n, p). KNext (l_call L) n) (l_partials L))"
    by (simp only:)
  then show ?thesis
    unfolding konts_tasks_of by auto
qed

lemma pending_tasks_of:
  "pending_main (l_call L) (tasks_of L)"
  "pending_names (l_call L) (tasks_of L) = fst ` set (l_partials L)"
proof -
  have k: "kont_of ` set (tasks_of L) = set (map kont_of (tasks_of L))"
    by simp
  show "pending_main (l_call L) (tasks_of L)"
    unfolding pending_main_def k konts_tasks_of by simp
  show "pending_names (l_call L) (tasks_of L) = fst ` set (l_partials L)"
    unfolding pending_names_def k konts_tasks_of by force
qed

lemma outcomes_reads [simp]:
  "[r. EvCallback c' r \<leftarrow> lookup_reads ch ps @ tr, c' = c] = [r. EvCallback c' r \<leftarrow> tr, c' = c]"
  unfolding lookup_reads_def by (induction "filter (\<lambda>p. ch p = None) (rev ps)") auto

lemma join_inv_launched:
  assumes "distinct (map fst kvs)"
  shows "join_inv E (launch_of w tmplPath kvs data opts cb)
           (launched (RenderFileCb data opts (JFunction cb)) kvs) True (fst ` set kvs) (outcomes cb w)"
proof -
  have "card (fst ` set kvs) = length kvs"
    using distinct_card [OF assms] by simp
  moreover have "\<forall>n p. (n, p) \<in> set kvs \<longrightarrow> n \<in> fst ` set kvs"
    by force
  ultimately show ?thesis
    by (simp add: join_inv_def launch_of_def launched_def new_call_def) blast
qed

lemma run_inv_launch:
  assumes "queue w = []" and "crashed w = None" and "get_helpers w opts = Inr hs"
    and "distinct (map fst kvs)"
  shows "run_inv E (launch_of w tmplPath kvs data opts cb)
           (snd (p_get E tmplPath (Some kvs) (RenderFileCb data opts (JFunction cb)) w))"
proof -
  let ?L = "launch_of w tmplPath kvs data opts cb"
  let ?w1 = "snd (p_get E tmplPath (Some kvs) (RenderFileCb data opts (JFunction cb)) w)"
  have L: "l_call ?L = ncalls w" "l_partials ?L = kvs" "l_cb ?L = cb" "l_opts ?L = opts"
    "l_files ?L = files w"
    by (simp_all add: launch_of_def)
  have q: "queue ?w1 = tasks_of ?L"
    using assms(1) by (simp add: p_get_eq tasks_of_def launch_of_def)
  have c: "calls ?w1 (ncalls w) = launched (RenderFileCb data opts (JFunction cb)) kvs"
    by (simp add: p_get_eq)
  have o: "outcomes cb ?w1 = outcomes cb w"
    by (simp add: p_get_eq outcomes_def del: concat_append map_append)
  have h: "get_helpers ?w1 opts = Inr hs"
    using assms(3) get_helpers_heap [of ?w1 w opts] by (simp add: p_get_eq)
  have cr: "crashed ?w1 = None" and f: "files ?w1 = files w"
    using assms(2) by (simp_all add: p_get_eq)
  have d: "distinct (map kont_of (tasks_of ?L))"
    using assms(4) by (intro distinct_tasks_of) (simp add: L)
  have j: "join_inv E ?L (calls ?w1 (l_call ?L)) (pending_main (l_call ?L) (queue ?w1))
             (pending_names (l_call ?L) (queue ?w1)) (outcomes (l_cb ?L) ?w1)"
    unfolding q using pending_tasks_of [of ?L] join_inv_launched [OF assms(4), of E w tmplPath data opts cb]
    by (simp add: L c o)
  show ?thesis
    unfolding run_inv_def using f h d j cr by (simp add: L q)
qed

lemma failures_empty:
  assumes "\<exists>t. lookup E (l_cache L) (l_files L) (l_path L) = Found t"
    and "\<forall>n p. (n, p) \<in> set (l_partials L) \<longrightarrow> (\<exists>t. lookup E (l_cache L) (l_files L) p = Found t)"
  shows "failures E L = {}"
  using assms by (fastforce simp: failures_def)

lemma join_inv_done:
  assumes "join_inv E L c False {} out"
  shows "(failures E L = {} \<longrightarrow>
           (\<exists>t result contents.
              lookup E (l_cache L) (l_files L) (l_path L) = Found t \<and> res0 c = Some t
              \<and> res1 c = Some result \<and> fst ` set result = fst ` set (l_partials L)
              \<and> (\<forall>(n, p) \<in> set (l_partials L).
                    \<exists>t'. lookup E (l_cache L) (l_files L) p = Found t' \<and> map_of result n = Some t')
              \<and> out = Inr contents # l_base L))
       \<and> (failures E L \<noteq> {} \<longrightarrow> (\<exists>e \<in> failures E L. out = Inl e # l_base L))"
proof (cases "par_noop c")
  case True
  with assms show ?thesis
    by (auto simp: join_inv_def)
next
  case False
  with assms obtain t contents where ok:
    "lookup E (l_cache L) (l_files L) (l_path L) = Found t" "res0 c = Some t"
    "res1 c = Some (map_result c)" "out = Inr contents # l_base L"
    "fst ` set (map_result c) \<subseteq> fst ` set (l_partials L)"
    and entries: "\<forall>n p. (n, p) \<in> set (l_partials L) \<longrightarrow>
        (\<exists>t. lookup E (l_cache L) (l_files L) p = Found t \<and> map_of (map_result c) n = Some t)"
    by (auto simp: join_inv_def)
  have none: "failures E L = {}"
    using ok(1) entries by (intro failures_empty) blast+
  have "fst ` set (l_partials L) \<subseteq> fst ` set (map_result c)"
  proof
    fix n
    assume "n \<in> fst ` set (l_partials L)"
    then obtain p where "(n, p) \<in> set (l_partials L)" by auto
    with entries obtain t' where "map_of (map_result c) n = Some t'" by blast
    then have "(n, t') \<in> set (map_result c)" by (rule map_of_SomeD)
    then show "n \<in> fst ` set (map_result c)" by (rule image_eqI [rotated]) simp
  qed
  with ok(5) have keys: "fst ` set (map_result c) = fst ` set (l_partials L)" by auto
  from entries have "\<forall>(n, p) \<in> set (l_partials L).
      \<exists>t'. lookup E (l_cache L) (l_files L) p = Found t' \<and> map_of (map_result c) n = Some t'"
    by auto
  with ok keys none show ?thesis by auto
qed

subsection \<open>How often the callback is called\<close>



lemma run_inv_done:
  assumes "run_inv E L w" and "quiescent w" and "crashed w = None"
  shows "join_inv E L (calls w (l_call L)) False {} (outcomes (l_cb L) w)"
  using assms by (simp add: run_inv_def quiescent_def pending_main_def pending_names_def)

















subsection \<open>What \<open>_get\<close> hands to its callback\<close>

lemma readfile_in_tasks:
  assumes "ReadFile p k \<in> set (tasks_of L)"
  shows "(k = KMain (l_call L) \<and> p = l_path L) \<or> (\<exists>n. k = KNext (l_call L) n \<and> (n, p) \<in> set (l_partials L))"
  using assms by (auto simp: tasks_of_def lookup_task_def split: option.splits)

lemma first_error_step:
  assumes inv: "run_inv E L w" and "crashed w = None"
    and none: "outcomes (l_cb L) w = l_base L"
    and i: "i < length (queue w)" and t: "queue w ! i = ReadFile p k" and e: "l_files L p = Inl e"
  shows "outcomes (l_cb L) (step E i w) = Inl e # l_base L"
proof -
  let ?j = "l_call L" and ?cb = "l_cb L"
  let ?w0 = "w\<lparr>queue := take i (queue w) @ drop (Suc i) (queue w)\<rparr>"
  let ?wl = "log (EvReadDone p (Inl e)) ?w0"
  let ?pm = "pending_main ?j (queue w)" and ?N = "pending_names ?j (queue w)"
  from inv assms(2) have F: "files w = l_files L" and sub: "set (queue w) \<subseteq> set (tasks_of L)"
    and J: "join_inv E L (calls w ?j) ?pm ?N (outcomes ?cb w)"
    by (auto simp: run_inv_def)
  have tin: "ReadFile p k \<in> set (queue w)"
    using i t by (metis nth_mem)
  have J': "join_inv E L (calls ?wl ?j) ?pm ?N (outcomes ?cb ?wl)"
    using J by (simp add: log_def outcomes_def)
  have np: "\<not> par_noop (calls ?wl ?j)"
    using J none by (auto simp: join_inv_def log_def)
  have rt: "run_task E (ReadFile p k) ?w0 = apply_kont E k (Inl e) ?wl"
    using F e by (simp add: run_task_def Let_def)
  have out: "outcomes ?cb (snd (apply_kont E k (Inl e) ?wl)) = Inl e # l_base L"
  proof -
    from tin sub have "ReadFile p k \<in> set (tasks_of L)" by auto
    from readfile_in_tasks [OF this] show ?thesis
    proof (elim disjE conjE exE)
      assume k: "k = KMain ?j"
      then have "?pm"
        using tin by (force simp: pending_main_def)
      with J' np show ?thesis
        unfolding k by (intro main_failed_first) simp_all
    next
      fix n
      assume k: "k = KNext ?j n"
      then have "n \<in> ?N"
        using tin by (force simp: pending_names_def)
      with J' np show ?thesis
        unfolding k by (intro partial_failed_first)
    qed
  qed
  obtain r w' where ak: "apply_kont E k (Inl e) ?wl = (r, w')"
    by (cases "apply_kont E k (Inl e) ?wl")
  have "step E i w = (case r of Inl x \<Rightarrow> w'\<lparr>crashed := Some x\<rparr> | Inr u \<Rightarrow> w')"
    using assms(2) i t rt ak by (simp add: step_def)
  then have "outcomes ?cb (step E i w) = outcomes ?cb w'"
    by (cases r) (simp_all add: outcomes_def)
  with out ak show ?thesis by simp
qed

lemma get_run_inv:
  assumes "queue w = []" and "crashed w = None" and "get_helpers w opts = Inr hs"
    and "distinct (map fst kvs)"
  shows "run_inv E (launch_of w tmplPath kvs data opts c)
           (run E picks (snd (p_get E tmplPath (Some kvs) (RenderFileCb data opts (JFunction c)) w)))"
  using run_inv_launch [OF assms, of E tmplPath data c]
  by (rule run_inv_run) (simp add: launch_of_def assms(4))

text \<open>
  C6. \<open>_getTmpl\<close> leaves pending, for any path and callback, the task that the cache
  decides; \<open>_get\<close>, called by \<open>renderFile\<close> in a world with nothing pending, leaves
  exactly these tasks pending for the template and for every partial (the names of the
  partials distinct). Whatever the order in which they run, when nothing is left to run
  and no exception was thrown: if no read fails, the results array holds the compiled
  template and the mapping from every partial name to the compiled template of its path,
  and the callback has been given contents; if a read fails, the callback has been given
  the error of a failing read, and nothing else. The error it is given is the first: as
  long as the callback has been given nothing, the turn that completes a failing read
  gives it the error of that read.
\<close>

theorem get_joins_lookups:
  "p_getTmpl p k w = w\<lparr>queue := queue w @ [lookup_task (cache w) p k],
                        trace := lookup_reads (cache w) [p] @ trace w\<rparr>
   \<and> (queue w = [] \<and> crashed w = None \<and> get_helpers w opts = Inr hs \<and> distinct (map fst kvs) \<longrightarrow>
       (let L = launch_of w tmplPath kvs data opts c;
            w1 = snd (p_get E tmplPath (Some kvs) (RenderFileCb data opts (JFunction c)) w);
            w2 = run E picks w1
        in queue w1 = tasks_of L
           \<and> (quiescent w2 \<and> crashed w2 = None \<longrightarrow>
                (failures E L = {} \<longrightarrow>
                   (\<exists>t result contents.
                      lookup E (cache w) (files w) tmplPath = Found t
                      \<and> res0 (calls w2 (ncalls w)) = Some t
                      \<and> res1 (calls w2 (ncalls w)) = Some result
                      \<and> fst ` set result = fst ` set kvs
                      \<and> (\<forall>(n, p) \<in> set kvs.
                            \<exists>t'. lookup E (cache w) (files w) p = Found t' \<and> map_of result n = Some t')
                      \<and> outcomes c w2 = Inr contents # outcomes c w))
                \<and> (failures E L \<noteq> {} \<longrightarrow>
                     (\<exists>e \<in> failures E L. outcomes c w2 = Inl e # outcomes c w)))
           \<and> (crashed w2 = None \<and> outcomes c w2 = outcomes c w \<and> i < length (queue w2)
               \<and> queue w2 ! i = ReadFile p k \<and> files w p = Inl e \<longrightarrow>
                outcomes c (step E i w2) = Inl e # outcomes c w)))"
proof -
  have main: "queue w1 = tasks_of L
           \<and> (quiescent w2 \<and> crashed w2 = None \<longrightarrow>
                (failures E L = {} \<longrightarrow>
                   (\<exists>t result contents.
                      lookup E (cache w) (files w) tmplPath = Found t
                      \<and> res0 (calls w2 (ncalls w)) = Some t
                      \<and> res1 (calls w2 (ncalls w)) = Some result
                      \<and> fst ` set result = fst ` set kvs
                      \<and> (\<forall>(n, p) \<in> set kvs.
                            \<exists>t'. lookup E (cache w) (files w) p = Found t' \<and> map_of result n = Some t')
                      \<and> outcomes c w2 = Inr contents # outcomes c w))
                \<and> (failures E L \<noteq> {} \<longrightarrow>
                     (\<exists>e \<in> failures E L. outcomes c w2 = Inl e # outcomes c w)))
           \<and> (crashed w2 = None \<and> outcomes c w2 = outcomes c w \<and> i < length (queue w2)
               \<and> queue w2 ! i = ReadFile p k \<and> files w p = Inl e \<longrightarrow>
                outcomes c (step E i w2) = Inl e # outcomes c w)"
    if idle: "queue w = []" "crashed w = None" and hs: "get_helpers w opts = Inr hs"
      and d: "distinct (map fst kvs)"
      and L: "L = launch_of w tmplPath kvs data opts c"
      and w1: "w1 = snd (p_get E tmplPath (Some kvs) (RenderFileCb data opts (JFunction c)) w)"
      and w2: "w2 = run E picks w1"
    for L w1 w2
  proof -
    have Lf: "l_call L = ncalls w" "l_path L = tmplPath" "l_partials L = kvs" "l_cb L = c"
      "l_cache L = cache w" "l_files L = files w" "l_base L = outcomes c w"
      by (simp_all add: L launch_of_def)
    have inv: "run_inv E L w2"
      unfolding L w1 w2 using idle hs d by (rule get_run_inv)
    have q: "queue w1 = tasks_of L"
      using idle(1) by (simp add: w1 L p_get_eq tasks_of_def launch_of_def)
    have atend: "(failures E L = {} \<longrightarrow>
                   (\<exists>t result contents.
                      lookup E (cache w) (files w) tmplPath = Found t
                      \<and> res0 (calls w2 (ncalls w)) = Some t
                      \<and> res1 (calls w2 (ncalls w)) = Some result
                      \<and> fst ` set result = fst ` set kvs
                      \<and> (\<forall>(n, p) \<in> set kvs.
                            \<exists>t'. lookup E (cache w) (files w) p = Found t' \<and> map_of result n = Some t')
                      \<and> outcomes c w2 = Inr contents # outcomes c w))
                \<and> (failures E L \<noteq> {} \<longrightarrow>
                     (\<exists>e \<in> failures E L. outcomes c w2 = Inl e # outcomes c w))"
      if "quiescent w2" "crashed w2 = None"
      using join_inv_done [OF run_inv_done [OF inv that]] by (simp only: Lf)
    have first: "outcomes c (step E i w2) = Inl e # outcomes c w"
      if "crashed w2 = None" "outcomes c w2 = outcomes c w" "i < length (queue w2)"
        "queue w2 ! i = ReadFile p k" "files w p = Inl e"
      using first_error_step [OF inv that(1) _ that(3,4), of e] that(2,5) by (simp add: Lf)
    from q atend first show ?thesis by blast
  qed
  show ?thesis
    unfolding Let_def using main [OF _ _ _ _ refl refl refl] by (simp add: p_getTmpl_eq)
qed


text \<open>
  \<open>with-partial.hbs\<close> and its partial, the partial completing first; and \<open>tmpl.hbs\<close>
  with a partial that cannot be read, the read of the partial completing first.
\<close>

theorem get_joins_lookups_witness:
  "queue w0 = [] \<and> crashed w0 = None \<and> get_helpers w0 (JObject 0) = Inr None
   \<and> distinct (map fst [(''partial'', ''partial.hbs'')])
   \<and> quiescent (run toy [1, 0] (snd (p_get toy ''with-partial.hbs'' (Some [(''partial'', ''partial.hbs'')])
          (RenderFileCb tmplData (JObject 0) (JFunction 7)) w0)))
   \<and> crashed (run toy [1, 0] (snd (p_get toy ''with-partial.hbs'' (Some [(''partial'', ''partial.hbs'')])
          (RenderFileCb tmplData (JObject 0) (JFunction 7)) w0))) = None
   \<and> failures toy (launch_of w0 ''with-partial.hbs'' [(''partial'', ''partial.hbs'')] tmplData (JObject 0) 7) = {}
   \<and> res0 (calls (run toy [1, 0] (snd (p_get toy ''with-partial.hbs'' (Some [(''partial'', ''partial.hbs'')])
          (RenderFileCb tmplData (JObject 0) (JFunction 7)) w0))) 0) = Some ''>partial''
   \<and> res1 (calls (run toy [1, 0] (snd (p_get toy ''with-partial.hbs'' (Some [(''partial'', ''partial.hbs'')])
          (RenderFileCb tmplData (JObject 0) (JFunction 7)) w0))) 0)
        = Some [(''partial'', ''<h2>Partial</h2>'')]
   \<and> outcomes 7 (run toy [1, 0] (snd (p_get toy ''with-partial.hbs'' (Some [(''partial'', ''partial.hbs'')])
          (RenderFileCb tmplData (JObject 0) (JFunction 7)) w0))) = [Inr ''<h2>Partial</h2>'']
   \<and> files w0 ''fake.hbs'' = Inl (IOError ''ENOENT'')
   \<and> queue (snd (p_get toy ''tmpl.hbs'' (Some [(''partial'', ''fake.hbs'')])
          (RenderFileCb tmplData (JObject 0) (JFunction 7)) w0)) ! 1 = ReadFile ''fake.hbs'' (KNext 0 ''partial'')
   \<and> outcomes 7 (step toy 1 (snd (p_get toy ''tmpl.hbs'' (Some [(''partial'', ''fake.hbs'')])
          (RenderFileCb tmplData (JObject 0) (JFunction 7)) w0))) = [Inl (IOError ''ENOENT'')]"
proof -
  have h: "queue w0 = [] \<and> crashed w0 = None \<and> get_helpers w0 (JObject 0) = Inr None
      \<and> outcomes 7 w0 = [] \<and> ncalls w0 = 0 \<and> files w0 ''fake.hbs'' = Inl (IOError ''ENOENT'')"
    by (simp add: toy_defs get_helpers_def outcomes_def)
  have f: "failures toy (launch_of w0 ''with-partial.hbs'' [(''partial'', ''partial.hbs'')] tmplData (JObject 0) 7) = {}"
    by (simp add: failures_def launch_of_def lookup_def toy_defs)
  have r: "quiescent (run toy [1, 0] (snd (p_get toy ''with-partial.hbs'' (Some [(''partial'', ''partial.hbs'')])
          (RenderFileCb tmplData (JObject 0) (JFunction 7)) w0)))
   \<and> crashed (run toy [1, 0] (snd (p_get toy ''with-partial.hbs'' (Some [(''partial'', ''partial.hbs'')])
          (RenderFileCb tmplData (JObject 0) (JFunction 7)) w0))) = None
   \<and> res0 (calls (run toy [1, 0] (snd (p_get toy ''with-partial.hbs'' (Some [(''partial'', ''partial.hbs'')])
          (RenderFileCb tmplData (JObject 0) (JFunction 7)) w0))) 0) = Some ''>partial''
   \<and> res1 (calls (run toy [1, 0] (snd (p_get toy ''with-partial.hbs'' (Some [(''partial'', ''partial.hbs'')])
          (RenderFileCb tmplData (JObject 0) (JFunction 7)) w0))) 0)
        = Some [(''partial'', ''<h2>Partial</h2>'')]
   \<and> outcomes 7 (run toy [1, 0] (snd (p_get toy ''with-partial.hbs'' (Some [(''partial'', ''partial.hbs'')])
          (RenderFileCb tmplData (JObject 0) (JFunction 7)) w0))) = [Inr ''<h2>Partial</h2>'']"
    by (simp add: run_defs toy_defs)
  have q: "queue (snd (p_get toy ''tmpl.hbs'' (Some [(''partial'', ''fake.hbs'')])
          (RenderFileCb tmplData (JObject 0) (JFunction 7)) w0)) ! 1 = ReadFile ''fake.hbs'' (KNext 0 ''partial'')
      \<and> crashed (snd (p_get toy ''tmpl.hbs'' (Some [(''partial'', ''fake.hbs'')])
          (RenderFileCb tmplData (JObject 0) (JFunction 7)) w0)) = None
      \<and> outcomes 7 (snd (p_get toy ''tmpl.hbs'' (Some [(''partial'', ''fake.hbs'')])
          (RenderFileCb tmplData (JObject 0) (JFunction 7)) w0)) = []
      \<and> length (queue (snd (p_get toy ''tmpl.hbs'' (Some [(''partial'', ''fake.hbs'')])
          (RenderFileCb tmplData (JObject 0) (JFunction 7)) w0))) = 2"
    by (simp add: run_defs toy_defs)
  show ?thesis
    using h f r q
      get_joins_lookups [where E = toy and w = w0 and opts = "JObject 0" and hs = None
        and kvs = "[(''partial'', ''partial.hbs'')]" and tmplPath = "''with-partial.hbs''"
        and data = tmplData and c = 7 and picks = "[1, 0]"]
      get_joins_lookups [where E = toy and w = w0 and opts = "JObject 0" and hs = None
        and kvs = "[(''partial'', ''fake.hbs'')]" and tmplPath = "''tmpl.hbs''"
        and data = tmplData and c = 7 and picks = "[]" and i = 1 and p = "''fake.hbs''"
        and k = "KNext 0 ''partial''" and e = "IOError ''ENOENT''"]
    by (simp add: Let_def)
qed

end
